theory Spec2Isabelle
  imports Main "HOL-Library.AList"
begin

section \<open>JavaScript containers\<close>

text \<open>
  A JavaScript \<open>Map\<close> (and a plain object read with \<open>for .. in\<close> or
  \<open>Object.entries\<close>) keeps its keys unique and in insertion order. It is modelled as
  an association list: \<open>Map.get\<close> is \<^const>\<open>map_of\<close>, \<open>Map.set\<close> is
  \<^const>\<open>AList.update\<close> (an existing key keeps its place and takes the new value, a
  new key goes to the end), \<open>Map.clear\<close> leaves \<open>[]\<close>.
\<close>

type_synonym ('k, 'v) jsmap = "('k \<times> 'v) list"

definition mapGet :: "('k, 'v) jsmap \<Rightarrow> 'k \<Rightarrow> 'v option" where
  "mapGet m k = map_of m k"

definition mapSet :: "'k \<Rightarrow> 'v \<Rightarrow> ('k, 'v) jsmap \<Rightarrow> ('k, 'v) jsmap" where
  "mapSet k v m = AList.update k v m"

definition mapKeys :: "('k, 'v) jsmap \<Rightarrow> 'k list" where
  "mapKeys m = map fst m"

definition mapHas :: "('k, 'v) jsmap \<Rightarrow> 'k \<Rightarrow> bool" where
  "mapHas m k = (k \<in> set (mapKeys m))"

section \<open>The workspace and its dirty flag\<close>

text \<open>
  The fields of \<open>ElmWorkspace\<close> that \<open>markAsDirty\<close>, \<open>getForest\<close>,
  \<open>getTypeChecker\<close> and the diagnostics readers read or write. The forest
  \<open>'f\<close>, the type checker \<open>'t\<close> and the type cache \<open>'c\<close> are classes of other
  files; the workspace only holds them. A diagnostic is kept as its message, and of a
  source file (\<open>ITreeContainer\<close>) the workspace reads the URI and the diagnostics
  of its parse; the tree is for the type checker.
\<close>

type_synonym diagnostic = string

record 's treeContainer =
  containerUri :: string
  parseDiagnostics :: "diagnostic list"
  containerTree :: 's

text \<open>
  Everything the modelled code throws or receives as a rejection: a cancelled type
  check, a file that cannot be read or parsed as JSON, a directory of the package store
  that cannot be listed, a malformed constraint, a file that cannot be parsed, and the
  three \<open>new Error(...)\<close> of the loader.
\<close>

datatype error =
    OperationCancelled
  | FileReadFailure string
  | DirectoryReadFailure string
  | MalformedConstraint string
  | ParseFailure string
  | ProblemGettingPackageVersion
  | ShouldNeverHappen
  | UnsolvablePackageConstraints

record ('f, 't, 'c) elmWorkspace =
  typeCache :: 'c
  typeChecker :: "'t option"
  dirty :: bool
  diagnosticsCache :: "(string, diagnostic list) jsmap"
  forest :: 'f

text \<open>
  What the workspace calls in other files: \<open>Forest.synchronize\<close>,
  \<open>createTypeChecker(this)\<close>, and \<open>TypeChecker.getDiagnostics\<close> and
  \<open>TypeChecker.getSuggestionDiagnostics\<close>, which take a cancellation token and so
  may throw instead of returning.
\<close>

record ('f, 't, 'c, 's) checkerHost =
  synchronize :: "'f \<Rightarrow> 'f"
  createTypeChecker :: "('f, 't, 'c) elmWorkspace \<Rightarrow> 't"
  getDiagnostics :: "'t \<Rightarrow> 's treeContainer \<Rightarrow> error + diagnostic list"
  checkerSuggestions :: "'t \<Rightarrow> 's treeContainer \<Rightarrow> error + diagnostic list"

text \<open>The constructor: \<open>dirty = true\<close>, no type checker, an empty diagnostics cache.\<close>

definition newWorkspace :: "'c \<Rightarrow> 'f \<Rightarrow> ('f, 't, 'c) elmWorkspace" where
  "newWorkspace c f =
     \<lparr>typeCache = c, typeChecker = None, dirty = True, diagnosticsCache = [], forest = f\<rparr>"

definition getForest ::
  "('f, 't, 'c, 's) checkerHost \<Rightarrow> bool \<Rightarrow> ('f, 't, 'c) elmWorkspace
     \<Rightarrow> 'f \<times> ('f, 't, 'c) elmWorkspace" where
  "getForest h sync w =
     (let w1 = (if dirty w \<and> sync
                then w\<lparr>forest := synchronize h (forest w), dirty := False\<rparr> else w)
      in (forest w1, w1))"

definition getTypeCache :: "('f, 't, 'c) elmWorkspace \<Rightarrow> 'c" where
  "getTypeCache w = typeCache w"

definition getTypeChecker ::
  "('f, 't, 'c, 's) checkerHost \<Rightarrow> ('f, 't, 'c) elmWorkspace
     \<Rightarrow> 't \<times> ('f, 't, 'c) elmWorkspace" where
  "getTypeChecker h w =
     (let w1 = (if dirty w
                then w\<lparr>forest := synchronize h (forest w), dirty := False\<rparr> else w)
      in case typeChecker w1 of
           Some t \<Rightarrow> (t, w1)
         | None \<Rightarrow> (let t = createTypeChecker h w1 in (t, w1\<lparr>typeChecker := Some t\<rparr>)))"

definition markAsDirty :: "('f, 't, 'c) elmWorkspace \<Rightarrow> ('f, 't, 'c) elmWorkspace" where
  "markAsDirty w =
     (if \<not> dirty w
      then w\<lparr>dirty := True, typeChecker := None, diagnosticsCache := []\<rparr>
      else w)"

text \<open>
  The cache is keyed by the URI of the source file. A cached array is truthy even when
  empty, so every cached entry is returned as it is. When the type checker throws, the
  exception leaves the method before the cache is written.
\<close>

definition getSemanticDiagnostics ::
  "('f, 't, 'c, 's) checkerHost \<Rightarrow> 's treeContainer \<Rightarrow> ('f, 't, 'c) elmWorkspace
     \<Rightarrow> (error + diagnostic list) \<times> ('f, 't, 'c) elmWorkspace" where
  "getSemanticDiagnostics h sourceFile w =
     (case mapGet (diagnosticsCache w) (containerUri sourceFile) of
        Some cached \<Rightarrow> (Inr cached, w)
      | None \<Rightarrow>
          (let (t, w1) = getTypeChecker h w
           in case getDiagnostics h t sourceFile of
                Inl e \<Rightarrow> (Inl e, w1)
              | Inr diagnostics \<Rightarrow>
                  (Inr diagnostics,
                   w1\<lparr>diagnosticsCache :=
                        mapSet (containerUri sourceFile) diagnostics (diagnosticsCache w1)\<rparr>)))"

definition getSyntacticDiagnostics ::
  "('f, 't, 'c, 's) checkerHost \<Rightarrow> 's treeContainer \<Rightarrow> ('f, 't, 'c) elmWorkspace
     \<Rightarrow> diagnostic list \<times> ('f, 't, 'c) elmWorkspace" where
  "getSyntacticDiagnostics h sourceFile w =
     (let (t, w1) = getTypeChecker h w in (parseDiagnostics sourceFile, w1))"

definition getSuggestionDiagnostics ::
  "('f, 't, 'c, 's) checkerHost \<Rightarrow> 's treeContainer \<Rightarrow> ('f, 't, 'c) elmWorkspace
     \<Rightarrow> (error + diagnostic list) \<times> ('f, 't, 'c) elmWorkspace" where
  "getSuggestionDiagnostics h sourceFile w =
     (let (t, w1) = getTypeChecker h w in (checkerSuggestions h t sourceFile, w1))"

text \<open>
  A sequence of calls on one workspace, each leaving the state to the next: the
  synchronous methods that write the flag, the type checker or the diagnostics cache.
\<close>

datatype 's call =
    MarkAsDirty
  | GetForest bool
  | GetTypeChecker
  | GetSemanticDiagnostics "'s treeContainer"
  | GetSyntacticDiagnostics "'s treeContainer"
  | GetSuggestionDiagnostics "'s treeContainer"

fun step ::
  "('f, 't, 'c, 's) checkerHost \<Rightarrow> ('f, 't, 'c) elmWorkspace \<Rightarrow> 's call
     \<Rightarrow> ('f, 't, 'c) elmWorkspace" where
  "step h w MarkAsDirty = markAsDirty w"
| "step h w (GetForest sync) = snd (getForest h sync w)"
| "step h w GetTypeChecker = snd (getTypeChecker h w)"
| "step h w (GetSemanticDiagnostics sourceFile) = snd (getSemanticDiagnostics h sourceFile w)"
| "step h w (GetSyntacticDiagnostics sourceFile) = snd (getSyntacticDiagnostics h sourceFile w)"
| "step h w (GetSuggestionDiagnostics sourceFile) = snd (getSuggestionDiagnostics h sourceFile w)"

definition calls ::
  "('f, 't, 'c, 's) checkerHost \<Rightarrow> 's call list \<Rightarrow> ('f, 't, 'c) elmWorkspace
     \<Rightarrow> ('f, 't, 'c) elmWorkspace" where
  "calls h cs w = foldl (step h) w cs"

text \<open>The invariant of the dirty flag: a dirty workspace caches no diagnostics.\<close>

definition dirtyInv :: "('f, 't, 'c) elmWorkspace \<Rightarrow> bool" where
  "dirtyInv w = (dirty w \<longrightarrow> diagnosticsCache w = [])"

text \<open>
  \<open>getSemanticDiagnosticsAsync\<close>. An \<open>async\<close> method runs, when it is called, up
  to its first \<open>await\<close>: the cache lookup, \<open>getTypeChecker()\<close> and the call of
  \<open>getDiagnosticsAsync\<close>. The rest of the body, the write of the cache, runs in a
  later turn of the event loop, once the awaited promise has settled, and other calls on
  the workspace run in between. The method is therefore two steps: the start, which
  gives the cached entry or the type checker whose promise is awaited, and the
  continuation, which takes what the promise settled with (a rejection is thrown at
  the \<open>await\<close>, before the write).
\<close>

datatype 't awaited = Cached "diagnostic list" | Awaiting 't

definition getSemanticDiagnosticsAsyncStart ::
  "('f, 't, 'c, 's) checkerHost \<Rightarrow> 's treeContainer \<Rightarrow> ('f, 't, 'c) elmWorkspace
     \<Rightarrow> 't awaited \<times> ('f, 't, 'c) elmWorkspace" where
  "getSemanticDiagnosticsAsyncStart h sourceFile w =
     (case mapGet (diagnosticsCache w) (containerUri sourceFile) of
        Some cached \<Rightarrow> (Cached cached, w)
      | None \<Rightarrow> (let (t, w1) = getTypeChecker h w in (Awaiting t, w1)))"

definition getSemanticDiagnosticsAsyncResume ::
  "'s treeContainer \<Rightarrow> error + diagnostic list \<Rightarrow> ('f, 't, 'c) elmWorkspace
     \<Rightarrow> (error + diagnostic list) \<times> ('f, 't, 'c) elmWorkspace" where
  "getSemanticDiagnosticsAsyncResume sourceFile settled w =
     (case settled of
        Inl e \<Rightarrow> (Inl e, w)
      | Inr diagnostics \<Rightarrow>
          (Inr diagnostics,
           w\<lparr>diagnosticsCache :=
                mapSet (containerUri sourceFile) diagnostics (diagnosticsCache w)\<rparr>))"

text \<open>
  A small workspace to run the calls on: the forest counts its synchronisations, the
  type checker is a token, the type cache is a key-value store that analyses fill, and
  every file has one diagnostic.
\<close>

definition exampleHost :: "(nat, unit, (string \<times> string) list, string) checkerHost" where
  "exampleHost =
     \<lparr>synchronize = Suc, createTypeChecker = (\<lambda>w. ()),
      getDiagnostics = (\<lambda>t sourceFile. Inr [''type mismatch in '' @ containerUri sourceFile]),
      checkerSuggestions = (\<lambda>t sourceFile. Inr [])\<rparr>"

definition mainElm :: "string treeContainer" where
  "mainElm =
     \<lparr>containerUri = ''file:///src/Main.elm'', parseDiagnostics = [],
      containerTree = ''(file (module_declaration))''\<rparr>"

definition exampleWorkspace :: "(nat, unit, (string \<times> string) list) elmWorkspace" where
  "exampleWorkspace =
     \<lparr>typeCache = [(''Main.view'', ''Html msg'')], typeChecker = Some (), dirty = False,
      diagnosticsCache = [(''file:///src/Main.elm'', [''type mismatch''])], forest = 1\<rparr>"

text \<open>
  A workspace whose diagnostics tell the forest they were computed on: the forest is
  the number of its synchronisations, a type checker is bound to the forest it was
  created on, and the diagnostic of a file has one mark for each synchronisation.
\<close>

definition versionedHost :: "(nat, nat, (string \<times> string) list, string) checkerHost" where
  "versionedHost =
     \<lparr>synchronize = Suc, createTypeChecker = (\<lambda>w. forest w),
      getDiagnostics = (\<lambda>t sourceFile. Inr [''forest '' @ replicate t (CHR ''I'')]),
      checkerSuggestions = (\<lambda>t sourceFile. Inr [])\<rparr>"

text \<open>
  An asynchronous read of \<open>Main.elm\<close> on a new workspace with an edit in between:
  the read starts and awaits the type checker; \<open>markAsDirty\<close> is called; the promise
  settles with the diagnostics of the type checker that was awaited, and the
  continuation runs.
\<close>

definition startedRead ::
  "nat awaited \<times> (nat, nat, (string \<times> string) list) elmWorkspace" where
  "startedRead = getSemanticDiagnosticsAsyncStart versionedHost mainElm (newWorkspace [] 0)"

definition settledWith :: "nat awaited \<Rightarrow> error + diagnostic list" where
  "settledWith a =
     (case a of Cached cached \<Rightarrow> Inr cached | Awaiting t \<Rightarrow> getDiagnostics versionedHost t mainElm)"

definition staleWorkspace :: "(nat, nat, (string \<times> string) list) elmWorkspace" where
  "staleWorkspace =
     snd (getSemanticDiagnosticsAsyncResume mainElm (settledWith (fst startedRead))
            (markAsDirty (snd startedRead)))"

section \<open>Versions, constraints, manifests and projects\<close>

text \<open>\<open>IVersion\<close>, \<open>IConstraint\<close> and \<open>IPackage\<close> as the interfaces declare them.\<close>

record version =
  major :: nat
  minor :: nat
  patch :: nat
  versionString :: string

datatype operator = Lt | Le

record constraint =
  upper :: version
  lower :: version
  upperOperator :: operator
  lowerOperator :: operator

record package =
  ipDependencies :: "(string, constraint) jsmap"
  ipVersion :: version

text \<open>
  \<open>IElmPackageCache.get\<close>: the versions of a package in the local store, or the
  exception of listing a folder that is not there.
\<close>

type_synonym packageCache = "string \<Rightarrow> error + package list"

text \<open>
  The manifests, with the fields the loader reads. \<open>exposed-modules\<close> is a list or an
  object of lists.
\<close>

datatype exposedModulesJson = Flat "string list" | Grouped "(string, string list) jsmap"

record elmApplicationJson =
  sourceDirectoriesJson :: "string list"
  dependenciesDirect :: "(string, string) jsmap"
  dependenciesIndirect :: "(string, string) jsmap"
  testDependenciesDirect :: "(string, string) jsmap"
  testDependenciesIndirect :: "(string, string) jsmap"

record elmPackageJson =
  exposedModulesJson :: exposedModulesJson
  packageDependencies :: "(string, string) jsmap"
  packageTestDependencies :: "(string, string) jsmap"

datatype elmJson = ApplicationJson elmApplicationJson | PackageJson elmPackageJson

text \<open>
  \<open>ElmProject\<close>. Projects are objects shared by reference: a dependency map holds
  references, and a reference is an address of the heap. \<open>exposedModules\<close> is the
  \<open>Set\<close> of a package, and empty for an application.
\<close>

datatype projectType = Application | Package

record elmProject =
  projectType :: projectType
  uri :: string
  dependencies :: "(string, nat) jsmap"
  testDependencies :: "(string, nat) jsmap"
  sourceDirectories :: "string list"
  testDirectories :: "string list"
  moduleToUriMap :: "(string, string) jsmap"
  maintainerAndPackageName :: "string option"
  exposedModules :: "string list"

type_synonym heap = "nat \<Rightarrow> elmProject"

text \<open>
  What the loader writes: the heap of projects with its next free address, the
  \<open>resolvedPackageCache\<close>, and the messages of \<open>window.showErrorMessage\<close>.
  \<open>loaded\<close> is the trace of the loads: the cache key of every \<open>loadPackage\<close> call
  that went past the cache and read a manifest, in the order of the reads.
\<close>

record loader =
  heap :: heap
  nextRef :: nat
  resolvedPackageCache :: "(string, nat) jsmap"
  loaded :: "string list"
  shown :: "string list"

text \<open>
  What the loader calls in other files, and the two paths of the workspace:
  \<open>host.readFile\<close> followed by \<open>JSON.parse\<close>, the path functions, \<open>URI.file\<close>,
  \<open>parseVersion\<close> (which returns a version for any string) and \<open>parseConstraint\<close>.
\<close>

record programHost =
  readElmJson :: "string \<Rightarrow> error + elmJson"
  pathJoin :: "string \<Rightarrow> string \<Rightarrow> string"
  pathResolve :: "string \<Rightarrow> string \<Rightarrow> string"
  uriFile :: "string \<Rightarrow> string"
  parseVersion :: "string \<Rightarrow> version"
  parseConstraint :: "string \<Rightarrow> error + constraint"
  rootFsPath :: string
  rootUri :: string
  packagesRoot :: string

section \<open>The project loader\<close>

text \<open>
  \<open>Object.assign(target, ...sources)\<close> writes every property of every source into
  the target, in order, and returns the target: the target object itself is changed.
\<close>

definition objectAssign :: "('k, 'v) jsmap \<Rightarrow> ('k, 'v) jsmap list \<Rightarrow> ('k, 'v) jsmap" where
  "objectAssign target sources =
     foldl (\<lambda>t source. foldl (\<lambda>t (k, v). mapSet k v t) t source) target sources"

text \<open>\<open>new Map(entries)\<close>.\<close>

definition newMap :: "('k \<times> 'v) list \<Rightarrow> ('k, 'v) jsmap" where
  "newMap entries = foldl (\<lambda>m (k, v). mapSet k v m) [] entries"

fun flatternExposedModules :: "exposedModulesJson \<Rightarrow> string list" where
  "flatternExposedModules (Flat exposed) = exposed"
| "flatternExposedModules (Grouped groups) = foldl (\<lambda>a b. a @ b) [] (map snd groups)"

text \<open>\<open>s.substring(0, s.indexOf("/"))\<close> and \<open>s.substring(s.indexOf("/") + 1, s.length)\<close>.\<close>

definition maintainerOf :: "string \<Rightarrow> string" where
  "maintainerOf packageName =
     (if CHR ''/'' \<in> set packageName then takeWhile (\<lambda>c. c \<noteq> CHR ''/'') packageName else [])"

definition nameOf :: "string \<Rightarrow> string" where
  "nameOf packageName =
     (if CHR ''/'' \<in> set packageName
      then tl (dropWhile (\<lambda>c. c \<noteq> CHR ''/'') packageName) else packageName)"

definition cacheKeyOf :: "string \<Rightarrow> version \<Rightarrow> string" where
  "cacheKeyOf packageName v = packageName @ ''@'' @ versionString v"

text \<open>
  \<open>loadDependencyMap\<close>: the loop over the keys of \<open>deps\<close>, one awaited
  \<open>loadPackage\<close> after the other; the first exception ends it. \<open>None\<close> is a call that
  does not return.
\<close>

fun loadDependencyLoop ::
  "(string \<Rightarrow> loader \<Rightarrow> ((error + nat) \<times> loader) option) \<Rightarrow> string list \<Rightarrow> (string, nat) jsmap
     \<Rightarrow> loader \<Rightarrow> ((error + (string, nat) jsmap) \<times> loader) option" where
  "loadDependencyLoop lp [] dependencyMap st = Some (Inr dependencyMap, st)"
| "loadDependencyLoop lp (dep # deps) dependencyMap st =
     (case lp dep st of
        None \<Rightarrow> None
      | Some (Inl e, st1) \<Rightarrow> Some (Inl e, st1)
      | Some (Inr p, st1) \<Rightarrow> loadDependencyLoop lp deps (mapSet dep p dependencyMap) st1)"

definition loadDependencyMap ::
  "(string \<Rightarrow> loader \<Rightarrow> ((error + nat) \<times> loader) option) \<Rightarrow> (string, string) jsmap
     \<Rightarrow> loader \<Rightarrow> ((error + (string, nat) jsmap) \<times> loader) option" where
  "loadDependencyMap lp deps st = loadDependencyLoop lp (mapKeys deps) [] st"

text \<open>
  \<open>loadPackage\<close>. The first argument bounds the depth of the recursion through
  \<open>loadDependencyMap\<close>; the code has no bound, and a package store whose manifests
  depend on each other in a cycle makes it recurse for ever.
\<close>

primrec loadPackage ::
  "nat \<Rightarrow> programHost \<Rightarrow> (string, version) jsmap \<Rightarrow> string \<Rightarrow> loader
     \<Rightarrow> ((error + nat) \<times> loader) option" where
  "loadPackage 0 h packageVersions packageName st = None"
| "loadPackage (Suc fuel) h packageVersions packageName st =
     (case mapGet packageVersions packageName of
        None \<Rightarrow> Some (Inl ProblemGettingPackageVersion, st)
      | Some v \<Rightarrow>
          (let cacheKey = cacheKeyOf packageName v in
           case mapGet (resolvedPackageCache st) cacheKey of
             Some cached \<Rightarrow> Some (Inr cached, st)
           | None \<Rightarrow>
               (let pathToPackageWithVersion =
                      packagesRoot h @ maintainerOf packageName @ ''/'' @ nameOf packageName
                        @ ''/'' @ versionString v;
                    elmJsonPath = pathJoin h pathToPackageWithVersion ''elm.json'';
                    st1 = st\<lparr>loaded := loaded st @ [cacheKey]\<rparr>
                in case readElmJson h elmJsonPath of
                     Inl e \<Rightarrow> Some (Inl e, st1)
                   | Inr (ApplicationJson a) \<Rightarrow> Some (Inl ShouldNeverHappen, st1)
                   | Inr (PackageJson j) \<Rightarrow>
                       (case loadDependencyMap (loadPackage fuel h packageVersions)
                               (packageDependencies j) st1 of
                          None \<Rightarrow> None
                        | Some (Inl e, st2) \<Rightarrow> Some (Inl e, st2)
                        | Some (Inr deps, st2) \<Rightarrow>
                            (let resolvedPackage =
                                   \<lparr>projectType = Package,
                                    uri = uriFile h pathToPackageWithVersion,
                                    dependencies = deps,
                                    testDependencies = [],
                                    sourceDirectories = [pathJoin h pathToPackageWithVersion ''src''],
                                    testDirectories = [pathJoin h pathToPackageWithVersion ''tests''],
                                    moduleToUriMap = [],
                                    maintainerAndPackageName = None,
                                    exposedModules =
                                      remdups (flatternExposedModules (exposedModulesJson j))\<rparr>;
                                 ref = nextRef st2
                             in Some (Inr ref,
                                  st2\<lparr>heap := (heap st2)(ref := resolvedPackage),
                                      nextRef := Suc ref,
                                      resolvedPackageCache :=
                                        mapSet cacheKey ref (resolvedPackageCache st2)\<rparr>))))))"

text \<open>The entries of a manifest's constraint object, parsed in order.\<close>

fun parseConstraints ::
  "(string \<Rightarrow> error + constraint) \<Rightarrow> (string \<times> string) list
     \<Rightarrow> error + (string \<times> constraint) list" where
  "parseConstraints pc [] = Inr []"
| "parseConstraints pc ((dep, v) # entries) =
     (case pc v of
        Inl e \<Rightarrow> Inl e
      | Inr c \<Rightarrow>
          (case parseConstraints pc entries of
             Inl e \<Rightarrow> Inl e
           | Inr cs \<Rightarrow> Inr ((dep, c) # cs)))"

definition unsolvableMessage :: string where
  "unsolvableMessage =
     ''There is a problem with elm.json. Could not solve dependencies with the given constraints. Try running `elm make` to install missing dependencies.''"

text \<open>
  The constraint map that \<open>loadRootProject\<close> hands to the solver for a package
  manifest: \<open>dependencies\<close> with \<open>test-dependencies\<close> assigned over it.
\<close>

definition rootConstraints ::
  "programHost \<Rightarrow> elmPackageJson \<Rightarrow> error + (string, constraint) jsmap" where
  "rootConstraints h j =
     (case parseConstraints (parseConstraint h)
             (objectAssign (packageDependencies j) [packageTestDependencies j]) of
        Inl e \<Rightarrow> Inl e
      | Inr entries \<Rightarrow> Inr (newMap entries))"

text \<open>
  \<open>loadRootProject\<close>. \<open>solveDependencies\<close> is a function of another file: it is
  an argument here, applied to the constraint map; it may not return (\<open>None\<close>), throw,
  return \<open>undefined\<close> (\<open>Inr None\<close>) or return the solved versions.

  Both branches call \<open>Object.assign\<close> with an object of the manifest as the target,
  so that object holds the assigned properties when it is read again further down.
\<close>

definition loadRootProject ::
  "nat \<Rightarrow> programHost
     \<Rightarrow> ((string, constraint) jsmap \<Rightarrow> (error + (string, version) jsmap option) option)
     \<Rightarrow> string \<Rightarrow> loader \<Rightarrow> ((error + nat) \<times> loader) option" where
  "loadRootProject fuel h solveDependencies elmJsonPath st =
     (case readElmJson h elmJsonPath of
        Inl e \<Rightarrow> Some (Inl e, st)
      | Inr (ApplicationJson a0) \<Rightarrow>
          (let a = a0\<lparr>dependenciesDirect :=
                        objectAssign (dependenciesDirect a0)
                          [dependenciesIndirect a0, testDependenciesDirect a0,
                           testDependenciesIndirect a0]\<rparr>;
               allDependencies =
                 newMap (map (\<lambda>(dep, v). (dep, parseVersion h v)) (dependenciesDirect a))
           in case loadDependencyMap (loadPackage fuel h allDependencies)
                     (dependenciesDirect a) st of
                None \<Rightarrow> None
              | Some (Inl e, st1) \<Rightarrow> Some (Inl e, st1)
              | Some (Inr deps, st1) \<Rightarrow>
                  (case loadDependencyMap (loadPackage fuel h allDependencies)
                          (testDependenciesDirect a) st1 of
                     None \<Rightarrow> None
                   | Some (Inl e, st2) \<Rightarrow> Some (Inl e, st2)
                   | Some (Inr testDeps, st2) \<Rightarrow>
                       (let rootProject =
                              \<lparr>projectType = Application,
                               uri = rootUri h,
                               dependencies = deps,
                               testDependencies = testDeps,
                               sourceDirectories =
                                 map (pathResolve h (rootFsPath h)) (sourceDirectoriesJson a),
                               testDirectories = [pathJoin h (rootFsPath h) ''tests''],
                               moduleToUriMap = [],
                               maintainerAndPackageName = None,
                               exposedModules = []\<rparr>;
                            ref = nextRef st2
                        in Some (Inr ref,
                             st2\<lparr>heap := (heap st2)(ref := rootProject), nextRef := Suc ref\<rparr>))))
      | Inr (PackageJson j0) \<Rightarrow>
          (let j = j0\<lparr>packageDependencies :=
                        objectAssign (packageDependencies j0) [packageTestDependencies j0]\<rparr>
           in case rootConstraints h j0 of
                Inl e \<Rightarrow> Some (Inl e, st)
              | Inr deps \<Rightarrow>
                  (case solveDependencies deps of
                     None \<Rightarrow> None
                   | Some (Inl e) \<Rightarrow> Some (Inl e, st)
                   | Some (Inr None) \<Rightarrow>
                       Some (Inl UnsolvablePackageConstraints,
                             st\<lparr>shown := shown st @ [unsolvableMessage]\<rparr>)
                   | Some (Inr (Some solvedVersions)) \<Rightarrow>
                       (case loadDependencyMap (loadPackage fuel h solvedVersions)
                               (packageDependencies j) st of
                          None \<Rightarrow> None
                        | Some (Inl e, st1) \<Rightarrow> Some (Inl e, st1)
                        | Some (Inr deps1, st1) \<Rightarrow>
                            (case loadDependencyMap (loadPackage fuel h solvedVersions)
                                    (packageTestDependencies j) st1 of
                               None \<Rightarrow> None
                             | Some (Inl e, st2) \<Rightarrow> Some (Inl e, st2)
                             | Some (Inr testDeps, st2) \<Rightarrow>
                                 (let rootProject =
                                        \<lparr>projectType = Package,
                                         uri = rootUri h,
                                         dependencies = deps1,
                                         testDependencies = testDeps,
                                         sourceDirectories = [pathJoin h (rootFsPath h) ''src''],
                                         testDirectories = [pathJoin h (rootFsPath h) ''tests''],
                                         moduleToUriMap = [],
                                         maintainerAndPackageName = None,
                                         exposedModules =
                                           remdups (flatternExposedModules (exposedModulesJson j))\<rparr>;
                                      ref = nextRef st2
                                  in Some (Inr ref,
                                       st2\<lparr>heap := (heap st2)(ref := rootProject),
                                           nextRef := Suc ref\<rparr>)))))))"

text \<open>
  A package store and an application to load. \<open>elm/html\<close> and \<open>elm/json\<close> both
  depend on \<open>elm/core\<close>, which the application lists as an indirect dependency.
\<close>

definition examplePackageJson :: "string list \<Rightarrow> (string, string) jsmap \<Rightarrow> elmJson" where
  "examplePackageJson exposed deps =
     PackageJson \<lparr>exposedModulesJson = Flat exposed, packageDependencies = deps,
                  packageTestDependencies = []\<rparr>"

definition exampleApplicationJson :: elmJson where
  "exampleApplicationJson =
     ApplicationJson
       \<lparr>sourceDirectoriesJson = [''src''],
        dependenciesDirect = [(''elm/html'', ''1.0.0''), (''elm/json'', ''1.1.3'')],
        dependenciesIndirect = [(''elm/core'', ''1.0.5'')],
        testDependenciesDirect = [(''elm-explorations/test'', ''1.2.2'')],
        testDependenciesIndirect = []\<rparr>"

definition exampleFiles :: "string \<Rightarrow> error + elmJson" where
  "exampleFiles path =
     (if path = ''/proj/elm.json'' then Inr exampleApplicationJson
      else if path = ''/elm/elm/html/1.0.0/elm.json''
        then Inr (examplePackageJson [''Html''] [(''elm/core'', ''1.0.0 <= v < 2.0.0'')])
      else if path = ''/elm/elm/json/1.1.3/elm.json''
        then Inr (examplePackageJson [''Json.Decode''] [(''elm/core'', ''1.0.0 <= v < 2.0.0'')])
      else if path = ''/elm/elm/core/1.0.5/elm.json''
        then Inr (examplePackageJson [''Basics'', ''List''] [])
      else if path = ''/elm/elm-explorations/test/1.2.2/elm.json''
        then Inr (examplePackageJson [''Test''] [(''elm/core'', ''1.0.0 <= v < 2.0.0'')])
      else Inl (FileReadFailure path))"

definition exampleProgramHost :: programHost where
  "exampleProgramHost =
     \<lparr>readElmJson = exampleFiles,
      pathJoin = (\<lambda>a b. a @ ''/'' @ b),
      pathResolve = (\<lambda>a b. a @ ''/'' @ b),
      uriFile = (\<lambda>p. ''file://'' @ p),
      parseVersion = (\<lambda>s. \<lparr>major = 0, minor = 0, patch = 0, versionString = s\<rparr>),
      parseConstraint = (\<lambda>s. Inl (MalformedConstraint s)),
      rootFsPath = ''/proj'',
      rootUri = ''file:///proj'',
      packagesRoot = ''/elm/''\<rparr>"

definition newLoader :: loader where
  "newLoader =
     \<lparr>heap = (\<lambda>r. \<lparr>projectType = Application, uri = [], dependencies = [],
                     testDependencies = [], sourceDirectories = [], testDirectories = [],
                     moduleToUriMap = [], maintainerAndPackageName = None,
                     exposedModules = []\<rparr>),
      nextRef = 0, resolvedPackageCache = [], loaded = [], shown = []\<rparr>"


section \<open>Versions in constraints\<close>

text \<open>
  Modelled from the spec: \<open>util/elmUtils\<close>, which compares versions, checks a version
  against a constraint, intersects constraints and solves, is not among the sources.
  The spec orders versions by (major, minor, patch), and a version satisfies a constraint
  iff it is within both bounds per their operators.
\<close>

definition versionLess :: "version \<Rightarrow> version \<Rightarrow> bool" where
  "versionLess v w =
     (major v < major w
      \<or> (major v = major w \<and> (minor v < minor w \<or> (minor v = minor w \<and> patch v < patch w))))"

definition versionsEqual :: "version \<Rightarrow> version \<Rightarrow> bool" where
  "versionsEqual v w = (major v = major w \<and> minor v = minor w \<and> patch v = patch w)"

definition holds :: "operator \<Rightarrow> version \<Rightarrow> version \<Rightarrow> bool" where
  "holds op v w = (case op of Lt \<Rightarrow> versionLess v w | Le \<Rightarrow> versionLess v w \<or> versionsEqual v w)"

definition versionSatisfiesConstraint :: "version \<Rightarrow> constraint \<Rightarrow> bool" where
  "versionSatisfiesConstraint v c =
     (holds (lowerOperator c) (lower c) v \<and> holds (upperOperator c) v (upper c))"

text \<open>
  Modelled from the spec: the intersection of two constraints takes the greater lower
  bound and the lesser upper bound, the strict operator where the bounds are equal; it
  is empty when the bounds cross, or meet with a strict operator.
\<close>

definition stricter :: "operator \<Rightarrow> operator \<Rightarrow> operator" where
  "stricter a b = (if a = Lt \<or> b = Lt then Lt else Le)"

definition greaterLower :: "constraint \<Rightarrow> constraint \<Rightarrow> version \<times> operator" where
  "greaterLower a b =
     (if versionLess (lower a) (lower b) then (lower b, lowerOperator b)
      else if versionLess (lower b) (lower a) then (lower a, lowerOperator a)
      else (lower a, stricter (lowerOperator a) (lowerOperator b)))"

definition lesserUpper :: "constraint \<Rightarrow> constraint \<Rightarrow> version \<times> operator" where
  "lesserUpper a b =
     (if versionLess (upper a) (upper b) then (upper a, upperOperator a)
      else if versionLess (upper b) (upper a) then (upper b, upperOperator b)
      else (upper a, stricter (upperOperator a) (upperOperator b)))"

definition constraintIntersect :: "constraint \<Rightarrow> constraint \<Rightarrow> constraint option" where
  "constraintIntersect a b =
     (let (lo, loOp) = greaterLower a b; (up, upOp) = lesserUpper a b
      in if versionLess up lo \<or> (versionsEqual lo up \<and> (loOp = Lt \<or> upOp = Lt)) then None
         else Some \<lparr>upper = up, lower = lo, upperOperator = upOp, lowerOperator = loOp\<rparr>)"

section \<open>The dependency solver\<close>

text \<open>
  Modelled from the spec: \<open>solveDependencies\<close> is not among the sources. Section 4.3
  describes it: a partial assignment and a frontier of unresolved constraints; for the
  package at the head of the frontier the candidate versions of the package cache that
  satisfy what is known for that name, greatest first; a candidate is assigned, its own
  constraints are added to the frontier, each intersected with the constraint the
  frontier already has on the same name, and the candidate is rejected when an
  intersection is empty; the solver recurses, and goes on to the next lower candidate
  when the recursion fails; with no candidate left it fails upward.

  What is known for a name includes its assignment: a name that is assigned keeps its
  version, so its only candidates are the packages of that version. The spec sets no
  bound on the search; the first argument of \<open>solveWorker\<close> bounds its depth, and
  \<open>None\<close> is a search that has not returned within it.
\<close>

fun addConstraint ::
  "string \<times> constraint \<Rightarrow> (string, constraint) jsmap \<Rightarrow> (string, constraint) jsmap option" where
  "addConstraint (n, c) [] = Some [(n, c)]"
| "addConstraint (n, c) ((m, d) # frontier) =
     (if m = n
      then (case constraintIntersect d c of
              None \<Rightarrow> None
            | Some e \<Rightarrow> Some ((m, e) # frontier))
      else (case addConstraint (n, c) frontier of
              None \<Rightarrow> None
            | Some frontier' \<Rightarrow> Some ((m, d) # frontier')))"

fun addConstraints ::
  "(string, constraint) jsmap \<Rightarrow> (string, constraint) jsmap \<Rightarrow> (string, constraint) jsmap option" where
  "addConstraints [] frontier = Some frontier"
| "addConstraints (d # ds) frontier =
     (case addConstraint d frontier of
        None \<Rightarrow> None
      | Some frontier' \<Rightarrow> addConstraints ds frontier')"

fun insertDescending :: "package \<Rightarrow> package list \<Rightarrow> package list" where
  "insertDescending p [] = [p]"
| "insertDescending p (q # qs) =
     (if versionLess (ipVersion p) (ipVersion q) then q # insertDescending p qs else p # q # qs)"

definition sortDescending :: "package list \<Rightarrow> package list" where
  "sortDescending ps = foldr insertDescending ps []"

definition candidatesFor ::
  "(string, version) jsmap \<Rightarrow> string \<Rightarrow> constraint \<Rightarrow> package list \<Rightarrow> package list" where
  "candidatesFor assignment name c available =
     sortDescending
       (filter (\<lambda>p. versionSatisfiesConstraint (ipVersion p) c
                    \<and> (case mapGet assignment name of
                         None \<Rightarrow> True
                       | Some v \<Rightarrow> versionsEqual (ipVersion p) v))
          available)"

fun tryCandidates ::
  "((string, constraint) jsmap \<Rightarrow> (string, version) jsmap
      \<Rightarrow> (error + (string, version) jsmap option) option)
     \<Rightarrow> string \<Rightarrow> (string, constraint) jsmap \<Rightarrow> (string, version) jsmap \<Rightarrow> package list
     \<Rightarrow> (error + (string, version) jsmap option) option" where
  "tryCandidates recurse name rest assignment [] = Some (Inr None)"
| "tryCandidates recurse name rest assignment (candidate # others) =
     (case addConstraints (ipDependencies candidate) rest of
        None \<Rightarrow> tryCandidates recurse name rest assignment others
      | Some frontier \<Rightarrow>
          (case recurse frontier (mapSet name (ipVersion candidate) assignment) of
             None \<Rightarrow> None
           | Some (Inl e) \<Rightarrow> Some (Inl e)
           | Some (Inr (Some solution)) \<Rightarrow> Some (Inr (Some solution))
           | Some (Inr None) \<Rightarrow> tryCandidates recurse name rest assignment others))"

primrec solveWorker ::
  "nat \<Rightarrow> packageCache \<Rightarrow> (string, constraint) jsmap \<Rightarrow> (string, version) jsmap
     \<Rightarrow> (error + (string, version) jsmap option) option" where
  "solveWorker 0 cache frontier assignment = None"
| "solveWorker (Suc fuel) cache frontier assignment =
     (case frontier of
        [] \<Rightarrow> Some (Inr (Some assignment))
      | (name, c) # rest \<Rightarrow>
          (case cache name of
             Inl e \<Rightarrow> Some (Inl e)
           | Inr available \<Rightarrow>
               tryCandidates (solveWorker fuel cache) name rest assignment
                 (candidatesFor assignment name c available)))"

definition solveDependencies ::
  "nat \<Rightarrow> packageCache \<Rightarrow> (string, constraint) jsmap
     \<Rightarrow> (error + (string, version) jsmap option) option" where
  "solveDependencies fuel cache deps = solveWorker fuel cache deps []"

text \<open>
  What the claim asks of a result: every root constraint is met by the version assigned
  to its name, and every assigned version is one of the package cache whose own
  constraints are all met by the versions assigned to their names.
\<close>

definition meets :: "(string, version) jsmap \<Rightarrow> string \<times> constraint \<Rightarrow> bool" where
  "meets solution d =
     (case mapGet solution (fst d) of
        None \<Rightarrow> False
      | Some v \<Rightarrow> versionSatisfiesConstraint v (snd d))"

definition versionsOf :: "packageCache \<Rightarrow> string \<Rightarrow> package list" where
  "versionsOf cache name = (case cache name of Inl e \<Rightarrow> [] | Inr available \<Rightarrow> available)"

definition chosenFrom :: "packageCache \<Rightarrow> (string, version) jsmap \<Rightarrow> string \<times> version \<Rightarrow> bool" where
  "chosenFrom cache solution a =
     list_ex (\<lambda>p. versionsEqual (ipVersion p) (snd a) \<and> list_all (meets solution) (ipDependencies p))
       (versionsOf cache (fst a))"

definition resolves ::
  "packageCache \<Rightarrow> (string, constraint) jsmap \<Rightarrow> (string, version) jsmap \<Rightarrow> bool" where
  "resolves cache deps solution =
     (distinct (mapKeys solution) \<and> list_all (meets solution) deps
      \<and> list_all (chosenFrom cache solution) solution)"

text \<open>
  What holds of a solution that the search returns from a frontier and a partial
  assignment: its names are distinct, it meets the frontier, it keeps the versions
  already assigned, and every other version in it is accounted for by a package of the
  cache whose constraints it meets.
\<close>

definition keeps :: "(string, version) jsmap \<Rightarrow> (string, version) jsmap \<Rightarrow> bool" where
  "keeps assignment solution =
     (\<forall>n v. mapGet assignment n = Some v
        \<longrightarrow> (\<exists>w. mapGet solution n = Some w \<and> versionsEqual v w))"

definition accounted ::
  "packageCache \<Rightarrow> (string, version) jsmap \<Rightarrow> (string, version) jsmap \<Rightarrow> bool" where
  "accounted cache assignment solution =
     (\<forall>a \<in> set solution.
        (\<exists>v. mapGet assignment (fst a) = Some v \<and> versionsEqual v (snd a))
        \<or> chosenFrom cache solution a)"

definition solved ::
  "packageCache \<Rightarrow> (string, constraint) jsmap \<Rightarrow> (string, version) jsmap
     \<Rightarrow> (string, version) jsmap \<Rightarrow> bool" where
  "solved cache frontier assignment solution =
     (distinct (mapKeys solution) \<and> list_all (meets solution) frontier
      \<and> keeps assignment solution \<and> accounted cache assignment solution)"

text \<open>
  A package cache to solve over. The greatest \<open>author/a\<close> needs an \<open>author/c\<close>
  that \<open>author/b\<close> excludes, so the search has to come back to the lower one. In the
  second cache only that greatest \<open>author/a\<close> is left.
\<close>

definition ver :: "nat \<Rightarrow> nat \<Rightarrow> nat \<Rightarrow> string \<Rightarrow> version" where
  "ver a b c s = \<lparr>major = a, minor = b, patch = c, versionString = s\<rparr>"

definition between :: "version \<Rightarrow> version \<Rightarrow> constraint" where
  "between lo up = \<lparr>upper = up, lower = lo, upperOperator = Lt, lowerOperator = Le\<rparr>"

definition v100 :: version where "v100 = ver 1 0 0 ''1.0.0''"
definition v110 :: version where "v110 = ver 1 1 0 ''1.1.0''"
definition v200 :: version where "v200 = ver 2 0 0 ''2.0.0''"
definition v300 :: version where "v300 = ver 3 0 0 ''3.0.0''"

definition exampleCache :: packageCache where
  "exampleCache name =
     (if name = ''author/a''
      then Inr [\<lparr>ipDependencies = [(''author/c'', between v100 v200)], ipVersion = v100\<rparr>,
                \<lparr>ipDependencies = [(''author/c'', between v200 v300)], ipVersion = v110\<rparr>]
      else if name = ''author/b''
      then Inr [\<lparr>ipDependencies = [(''author/c'', between v100 v200)], ipVersion = v100\<rparr>]
      else if name = ''author/c''
      then Inr [\<lparr>ipDependencies = [], ipVersion = v100\<rparr>,
                \<lparr>ipDependencies = [], ipVersion = v200\<rparr>]
      else Inl (DirectoryReadFailure name))"


definition exampleDeps :: "(string, constraint) jsmap" where
  "exampleDeps = [(''author/a'', between v100 v200), (''author/b'', between v100 v200)]"

definition exampleSolution :: "(string, version) jsmap" where
  "exampleSolution = [(''author/a'', v100), (''author/b'', v100), (''author/c'', v100)]"

section \<open>Package stores on which the solver returns\<close>


fun weight :: "string list \<Rightarrow> string \<Rightarrow> nat" where
  "weight [] n = 0"
| "weight (m # ms) n = (if n = m then 2 ^ length ms else weight ms n)"



section \<open>Local discovery of modules\<close>

text \<open>
  The three string methods of the module-name expression. \<open>s.replace(p, r)\<close> with a
  string pattern replaces the first occurrence of \<open>p\<close> and no other;
  \<open>s.split(c)\<close> cuts at every occurrence of the separator, here one character, and
  gives \<open>[""]\<close> for the empty string; \<open>join\<close> puts the separator between the parts.
\<close>

fun replaceFirst :: "string \<Rightarrow> string \<Rightarrow> string \<Rightarrow> string" where
  "replaceFirst pattern replacement [] = (if pattern = [] then replacement else [])"
| "replaceFirst pattern replacement (c # s) =
     (if take (length pattern) (c # s) = pattern
      then replacement @ drop (length pattern) (c # s)
      else c # replaceFirst pattern replacement s)"

fun splitOn :: "char \<Rightarrow> string \<Rightarrow> string list" where
  "splitOn separator [] = [[]]"
| "splitOn separator (c # s) =
     (if c = separator then [] # splitOn separator s
      else (case splitOn separator s of
              [] \<Rightarrow> [[c]]
            | part # parts \<Rightarrow> (c # part) # parts))"

fun joinWith :: "string \<Rightarrow> string list \<Rightarrow> string" where
  "joinWith separator [] = []"
| "joinWith separator [part] = part"
| "joinWith separator (part # parts) = part @ separator @ joinWith separator parts"

text \<open>
  The module name of a file from its path relative to the source directory:
  \<open>.replace(".elm", "").split("/").join(".")\<close>.
\<close>

definition moduleNameOf :: "string \<Rightarrow> string" where
  "moduleNameOf relativePath =
     joinWith ''.'' (splitOn CHR ''/'' (replaceFirst ''.elm'' '''' relativePath))"

text \<open>The same expression in the older copy of the workspace, which splits at backslashes.\<close>

definition moduleNameOfBackslash :: "string \<Rightarrow> string" where
  "moduleNameOfBackslash relativePath =
     joinWith ''.'' (splitOn (CHR 0x5C) (replaceFirst ''.elm'' '''' relativePath))"

text \<open>
  The module name as the claim words it: the trailing \<open>.elm\<close> removed, every path
  separator replaced by a dot, nothing else altered.
\<close>

definition stripElmExtension :: "string \<Rightarrow> string" where
  "stripElmExtension p =
     (if length p \<ge> 4 \<and> drop (length p - 4) p = ''.elm'' then take (length p - 4) p else p)"

definition claimedModuleName :: "string \<Rightarrow> string" where
  "claimedModuleName relativePath =
     map (\<lambda>c. if c = CHR ''/'' then CHR ''.'' else c) (stripElmExtension relativePath)"

text \<open>
  \<open>IElmFile\<close> (its fields \<open>path\<close>, \<open>maintainerAndPackageName\<close> and
  \<open>project\<close>), and what discovery calls in other files: \<open>host.readDirectory\<close>,
  \<open>normalizeUri\<close>, \<open>path.relative\<close> and \<open>URI.file\<close>.
\<close>

record elmFile =
  filePath :: string
  fileMaintainerAndPackageName :: "string option"
  fileProject :: nat

record directoryHost =
  readDirectory :: "string \<Rightarrow> error + string list"
  normalizeUri :: "string \<Rightarrow> string"
  pathRelative :: "string \<Rightarrow> string \<Rightarrow> string"
  fileUri :: "string \<Rightarrow> string"

text \<open>
  \<open>findElmFilesInProjectWorker\<close>: every path of the directory listing is recorded in
  the project's \<open>moduleToUriMap\<close> under its module name and pushed onto the result.
\<close>

definition recordElmFile ::
  "directoryHost \<Rightarrow> string \<Rightarrow> nat \<Rightarrow> elmFile list \<times> heap \<Rightarrow> string \<Rightarrow> elmFile list \<times> heap" where
  "recordElmFile h sourceDir proj acc matchingPath0 =
     (let (elmFiles, hp) = acc;
          matchingPath = normalizeUri h matchingPath0;
          moduleName = moduleNameOf (pathRelative h sourceDir matchingPath)
      in (elmFiles @
            [\<lparr>filePath = matchingPath,
              fileMaintainerAndPackageName =
                (if projectType (hp proj) = Package then maintainerAndPackageName (hp proj)
                 else None),
              fileProject = proj\<rparr>],
          hp(proj := (hp proj)\<lparr>moduleToUriMap :=
                 mapSet moduleName (fileUri h matchingPath) (moduleToUriMap (hp proj))\<rparr>)))"

definition findElmFilesInProjectWorker ::
  "directoryHost \<Rightarrow> string \<Rightarrow> nat \<Rightarrow> heap \<Rightarrow> error + elmFile list \<times> heap" where
  "findElmFilesInProjectWorker h sourceDir proj hp =
     (case readDirectory h sourceDir of
        Inl e \<Rightarrow> Inl e
      | Inr matchingPaths \<Rightarrow> Inr (foldl (recordElmFile h sourceDir proj) ([], hp) matchingPaths))"

text \<open>
  A source directory with a file in a folder whose name contains \<open>.elm\<close>; relative
  paths are what is left of a path after the directory and its separator.
\<close>

definition exampleDirectoryHost :: directoryHost where
  "exampleDirectoryHost =
     \<lparr>readDirectory =
        (\<lambda>dir. if dir = ''/proj/src''
                then Inr [''/proj/src/Main.elm'', ''/proj/src/Page.elmish/View.elm'']
                else Inl (DirectoryReadFailure dir)),
      normalizeUri = (\<lambda>p. p),
      pathRelative = (\<lambda>dir p. drop (Suc (length dir)) p),
      fileUri = (\<lambda>p. ''file://'' @ p)\<rparr>"

section \<open>Populating the forest\<close>

text \<open>
  Modelled from the spec: the \<open>Forest\<close> class is not among the sources. Section 4.6:
  \<open>setTree\<close> upserts the entry of a URI, and setting the same URI again replaces
  the tree. The arguments are those of the call in \<open>readAndAddToForest\<close>.
\<close>

record 't sourceFile =
  sourceUri :: string
  writeable :: bool
  referenced :: bool
  tree :: 't
  sourceProject :: nat
  sourceMaintainerAndPackageName :: "string option"

definition setTree ::
  "string \<Rightarrow> bool \<Rightarrow> bool \<Rightarrow> 't \<Rightarrow> nat \<Rightarrow> string option
     \<Rightarrow> (string, 't sourceFile) jsmap \<Rightarrow> (string, 't sourceFile) jsmap" where
  "setTree u w r t p m treeMap =
     mapSet u
       \<lparr>sourceUri = u, writeable = w, referenced = r, tree = t, sourceProject = p,
        sourceMaintainerAndPackageName = m\<rparr>
       treeMap"

text \<open>
  What \<open>readAndAddToForest\<close> calls and writes: \<open>host.readFile\<close>,
  \<open>parser.parse\<close> and \<open>URI.file\<close>; the forest, the lines of
  \<open>connection.console.error\<close>, and the number of progress reports.
\<close>

record 't sourceHost =
  readFile :: "string \<Rightarrow> error + string"
  parse :: "string \<Rightarrow> error + 't"
  sourceFileUri :: "string \<Rightarrow> string"

record 't population =
  treeMap :: "(string, 't sourceFile) jsmap"
  consoleErrors :: "error list"
  progressReports :: nat

text \<open>
  \<open>readAndAddToForest\<close>: the whole body is inside \<open>try\<close>, and the handler logs
  the error and returns, so the promise of a file always resolves. The progress callback
  and \<open>console.info\<close> only report.
\<close>

definition readAndAddToForest ::
  "'t sourceHost \<Rightarrow> nat \<Rightarrow> elmFile \<Rightarrow> 't population \<Rightarrow> 't population" where
  "readAndAddToForest h rootProject file st =
     (case readFile h (filePath file) of
        Inl e \<Rightarrow> st\<lparr>consoleErrors := consoleErrors st @ [e]\<rparr>
      | Inr fileContent \<Rightarrow>
          (case parse h fileContent of
             Inl e \<Rightarrow> st\<lparr>consoleErrors := consoleErrors st @ [e]\<rparr>
           | Inr t \<Rightarrow>
               st\<lparr>treeMap :=
                    setTree (sourceFileUri h (filePath file)) (fileProject file = rootProject)
                      True t (fileProject file) (fileMaintainerAndPackageName file) (treeMap st),
                  progressReports := Suc (progressReports st)\<rparr>))"

text \<open>
  The batch of \<open>initWorkspace\<close>: one promise per file, awaited together. Each
  promise writes the forest in one step after its read has completed, so the batch is
  the files taken in the order in which their reads complete.
\<close>

definition addAllToForest ::
  "'t sourceHost \<Rightarrow> nat \<Rightarrow> elmFile list \<Rightarrow> 't population \<Rightarrow> 't population" where
  "addAllToForest h rootProject files st = foldl (\<lambda>st file. readAndAddToForest h rootProject file st) st files"

text \<open>Whether a file can be read and parsed, and the tree it then gives.\<close>

definition treeOf :: "'t sourceHost \<Rightarrow> elmFile \<Rightarrow> 't option" where
  "treeOf h file =
     (case readFile h (filePath file) of
        Inl e \<Rightarrow> None
      | Inr fileContent \<Rightarrow> (case parse h fileContent of Inl e \<Rightarrow> None | Inr t \<Rightarrow> Some t))"

definition failureOf :: "'t sourceHost \<Rightarrow> elmFile \<Rightarrow> error option" where
  "failureOf h file =
     (case readFile h (filePath file) of
        Inl e \<Rightarrow> Some e
      | Inr fileContent \<Rightarrow> (case parse h fileContent of Inl e \<Rightarrow> Some e | Inr t \<Rightarrow> None))"

text \<open>A batch of four files: the second cannot be read, the third does not parse.\<close>

definition exampleSourceHost :: "string sourceHost" where
  "exampleSourceHost =
     \<lparr>readFile =
        (\<lambda>p. if p = ''/proj/src/Main.elm'' then Inr ''module Main exposing (main)''
              else if p = ''/proj/src/Broken.elm'' then Inr ''''
              else if p = ''/proj/src/Util.elm'' then Inr ''module Util exposing (..)''
              else Inl (FileReadFailure p)),
      parse = (\<lambda>text. if text = [] then Inl (ParseFailure text) else Inr (''(file '' @ text @ '')'')),
      sourceFileUri = (\<lambda>p. ''file://'' @ p)\<rparr>"

definition exampleBatch :: "elmFile list" where
  "exampleBatch =
     [\<lparr>filePath = ''/proj/src/Main.elm'', fileMaintainerAndPackageName = None, fileProject = 4\<rparr>,
      \<lparr>filePath = ''/proj/src/Gone.elm'', fileMaintainerAndPackageName = None, fileProject = 4\<rparr>,
      \<lparr>filePath = ''/proj/src/Broken.elm'', fileMaintainerAndPackageName = None, fileProject = 4\<rparr>,
      \<lparr>filePath = ''/proj/src/Util.elm'', fileMaintainerAndPackageName = None, fileProject = 4\<rparr>]"

definition emptyPopulation :: "string population" where
  "emptyPopulation = \<lparr>treeMap = [], consoleErrors = [], progressReports = 0\<rparr>"

section \<open>Exposure propagation\<close>

text \<open>
  The body of the inner \<open>forEach\<close> of \<open>findExposedModulesOfDependencies\<close>: every
  entry of the dependency's \<open>moduleToUriMap\<close> whose module is in the dependency's
  \<open>exposedModules\<close> is set in the project's \<open>moduleToUriMap\<close>.
\<close>

definition copyExposedModules :: "nat \<Rightarrow> nat \<Rightarrow> heap \<Rightarrow> heap" where
  "copyExposedModules proj dep hp =
     hp(proj := (hp proj)\<lparr>moduleToUriMap :=
          foldl (\<lambda>table (module, u).
                   if module \<in> set (exposedModules (hp dep)) then mapSet module u table
                   else table)
            (moduleToUriMap (hp proj)) (moduleToUriMap (hp dep))\<rparr>)"

text \<open>
  \<open>loadForDependencies\<close>: for each dependency the copy, then the recursive call on
  the dependency. \<open>findExposedModulesOfDependencies\<close> runs it on the dependencies
  and, for the root project only, on the test dependencies. The first argument bounds
  the depth of the recursion; \<open>None\<close> is a call that has not returned within it.
\<close>

fun loadForDependencies ::
  "(nat \<Rightarrow> heap \<Rightarrow> heap option) \<Rightarrow> nat \<Rightarrow> nat list \<Rightarrow> heap \<Rightarrow> heap option" where
  "loadForDependencies recurse proj [] hp = Some hp"
| "loadForDependencies recurse proj (dep # deps) hp =
     (case recurse dep (copyExposedModules proj dep hp) of
        None \<Rightarrow> None
      | Some hp1 \<Rightarrow> loadForDependencies recurse proj deps hp1)"

primrec findExposedModulesOfDependencies :: "nat \<Rightarrow> nat \<Rightarrow> nat \<Rightarrow> heap \<Rightarrow> heap option" where
  "findExposedModulesOfDependencies 0 rootProject proj hp = None"
| "findExposedModulesOfDependencies (Suc fuel) rootProject proj hp =
     (case loadForDependencies (findExposedModulesOfDependencies fuel rootProject) proj
             (map snd (dependencies (hp proj))) hp of
        None \<Rightarrow> None
      | Some hp1 \<Rightarrow>
          if proj = rootProject
          then loadForDependencies (findExposedModulesOfDependencies fuel rootProject) proj
                 (map snd (testDependencies (hp1 proj))) hp1
          else Some hp1)"

text \<open>
  The dependencies a project copies from: its dependencies, and for the root project
  its test dependencies too.
\<close>

definition copiedFrom :: "nat \<Rightarrow> heap \<Rightarrow> nat \<Rightarrow> nat list" where
  "copiedFrom rootProject hp proj =
     map snd (dependencies (hp proj))
       @ (if proj = rootProject then map snd (testDependencies (hp proj)) else [])"

text \<open>
  What propagation leaves as it was: for every project the dependency maps and the
  exposed modules. And what it may add: to the table of a project, names that one of
  the dependencies it copies from exposes.
\<close>

definition sameGraph :: "heap \<Rightarrow> heap \<Rightarrow> bool" where
  "sameGraph hp hp' =
     (\<forall>q. dependencies (hp' q) = dependencies (hp q)
          \<and> testDependencies (hp' q) = testDependencies (hp q)
          \<and> exposedModules (hp' q) = exposedModules (hp q))"

definition onlyExposed :: "nat \<Rightarrow> heap \<Rightarrow> heap \<Rightarrow> bool" where
  "onlyExposed rootProject hp hp' =
     (\<forall>q module. mapHas (moduleToUriMap (hp' q)) module \<longrightarrow>
        mapHas (moduleToUriMap (hp q)) module
        \<or> (\<exists>dep \<in> set (copiedFrom rootProject hp q). module \<in> set (exposedModules (hp dep))))"

text \<open>
  The graphs the loader builds. A project is allocated after its dependencies have been
  loaded, so every reference of a dependency map is an address below the project's own;
  on such a heap propagation descends and returns. \<open>built\<close> is the invariant of the
  loader that gives this, and \<open>keepsBuilt\<close> says that a load keeps it and returns an
  allocated address.
\<close>

definition bottomUp :: "heap \<Rightarrow> bool" where
  "bottomUp hp =
     (\<forall>q. \<forall>d \<in> set (map snd (dependencies (hp q)) @ map snd (testDependencies (hp q))). d < q)"

definition built :: "loader \<Rightarrow> bool" where
  "built st =
     (bottomUp (heap st)
      \<and> (\<forall>k r. mapGet (resolvedPackageCache st) k = Some r \<longrightarrow> r < nextRef st))"

definition below :: "(string, nat) jsmap \<Rightarrow> nat \<Rightarrow> bool" where
  "below m n = (\<forall>e \<in> set m. snd e < n)"

definition keepsBuilt :: "(loader \<Rightarrow> ((error + nat) \<times> loader) option) \<Rightarrow> bool" where
  "keepsBuilt f =
     (\<forall>s res s'. built s \<longrightarrow> f s = Some (res, s')
        \<longrightarrow> built s' \<and> nextRef s \<le> nextRef s' \<and> (\<forall>r. res = Inr r \<longrightarrow> r < nextRef s'))"

text \<open>
  An application (4) over three packages: 1 and 2 are its dependencies, 3 its test
  dependency, and both 1 and 2 depend on 0. Each package has an exposed and an internal
  module, already recorded in its own table by local discovery.
\<close>

definition examplePackage ::
  "string \<Rightarrow> string \<Rightarrow> (string, nat) jsmap \<Rightarrow> elmProject" where
  "examplePackage exposed internal deps =
     \<lparr>projectType = Package, uri = [], dependencies = deps, testDependencies = [],
      sourceDirectories = [], testDirectories = [],
      moduleToUriMap = [(exposed, ''file:///'' @ exposed), (internal, ''file:///'' @ internal)],
      maintainerAndPackageName = None, exposedModules = [exposed]\<rparr>"

definition exampleHeap :: heap where
  "exampleHeap =
     (heap newLoader)
       (0 := examplePackage ''Basics'' ''Elm.Kernel'' [],
        1 := examplePackage ''Html'' ''Html.Internal'' [(''elm/core'', 0)],
        2 := examplePackage ''Json.Decode'' ''Json.Internal'' [(''elm/core'', 0)],
        3 := examplePackage ''Test'' ''Test.Internal'' [(''elm/core'', 0)],
        4 := (heap newLoader 4)
               \<lparr>dependencies := [(''elm/html'', 1), (''elm/json'', 2)],
                testDependencies := [(''elm-explorations/test'', 3)],
                moduleToUriMap := [(''Main'', ''file:///Main'')]\<rparr>)"

section \<open>What memoization rests on\<close>

text \<open>
  The notions the memoization property is stated and proved with. The key and the
  manifest path of a package name under a version map, as \<open>loadPackage\<close> computes
  them; a name is cached when its key has an entry in \<open>resolvedPackageCache\<close>.
\<close>

definition keyOfName :: "(string, version) jsmap \<Rightarrow> string \<Rightarrow> string" where
  "keyOfName packageVersions n =
     (case mapGet packageVersions n of None \<Rightarrow> [] | Some v \<Rightarrow> cacheKeyOf n v)"

definition manifestPath :: "programHost \<Rightarrow> string \<Rightarrow> version \<Rightarrow> string" where
  "manifestPath h n v =
     pathJoin h (packagesRoot h @ maintainerOf n @ ''/'' @ nameOf n @ ''/'' @ versionString v)
       ''elm.json''"



definition uncachedName :: "(string, version) jsmap \<Rightarrow> (string, nat) jsmap \<Rightarrow> string \<Rightarrow> bool" where
  "uncachedName packageVersions c n =
     (\<exists>v. mapGet packageVersions n = Some v \<and> mapGet c (cacheKeyOf n v) = None)"


text \<open>
  A package store without dependency cycles: a rank on the package names that every
  manifest of the store respects, each dependency ranking below its dependent.
\<close>

definition ranked :: "programHost \<Rightarrow> (string \<Rightarrow> nat) \<Rightarrow> bool" where
  "ranked h rank =
     (\<forall>n v j. readElmJson h (manifestPath h n v) = Inr (PackageJson j)
        \<longrightarrow> (\<forall>d \<in> set (mapKeys (packageDependencies j)). rank d < rank n))"






text \<open>
  What a call leaves behind, from \<open>st\<close> to \<open>st'\<close>, with the names \<open>S\<close> in
  progress around it: the entries of the cache are kept; the names in progress are
  still uncached; the keys it loaded are distinct, were not cached before and are no
  key of a name in progress; and when the call succeeded, the keys of the cache are
  those it had and those that were loaded.
\<close>

definition leaves ::
  "(string, version) jsmap \<Rightarrow> string set \<Rightarrow> loader \<Rightarrow> loader \<Rightarrow> bool \<Rightarrow> bool" where
  "leaves packageVersions S st st' succeeded =
     ((\<forall>k r. mapGet (resolvedPackageCache st) k = Some r
          \<longrightarrow> mapGet (resolvedPackageCache st') k = Some r)
      \<and> (\<forall>x \<in> S. uncachedName packageVersions (resolvedPackageCache st') x)
      \<and> (\<exists>new. loaded st' = loaded st @ new \<and> distinct new
            \<and> (\<forall>k \<in> set new. \<not> mapHas (resolvedPackageCache st) k
                   \<and> k \<notin> keyOfName packageVersions ` S)
            \<and> (succeeded \<longrightarrow>
                 (\<forall>k. mapHas (resolvedPackageCache st') k
                       \<longleftrightarrow> mapHas (resolvedPackageCache st) k \<or> k \<in> set new))))"

text \<open>A state with no call in progress: every key loaded so far is cached, and once.\<close>

definition settled :: "loader \<Rightarrow> bool" where
  "settled st =
     (distinct (loaded st) \<and> (\<forall>k \<in> set (loaded st). mapHas (resolvedPackageCache st) k))"









section \<open>Properties of the containers\<close>

lemma mapGet_mapSet: "mapGet (mapSet k v m) k' = (if k' = k then Some v else mapGet m k')"
  by (simp add: mapGet_def mapSet_def update_conv')

lemma mapKeys_mapSet_distinct: "distinct (mapKeys m) \<Longrightarrow> distinct (mapKeys (mapSet k v m))"
  by (simp add: mapKeys_def mapSet_def distinct_update)

lemma mapGet_empty: "mapGet [] k = None"
  by (simp add: mapGet_def)

lemma mapHas_mapGet: "mapHas m k \<longleftrightarrow> mapGet m k \<noteq> None"
  by (auto simp: mapHas_def mapKeys_def mapGet_def map_of_eq_None_iff)

lemma mapHas_mapSet: "mapHas (mapSet k v m) u \<longleftrightarrow> u = k \<or> mapHas m u"
  by (auto simp: mapHas_mapGet mapGet_mapSet)

lemma mapGet_mapKeys: "mapGet m k = Some v \<Longrightarrow> k \<in> set (mapKeys m)"
  by (auto simp: mapGet_def mapKeys_def dest: map_of_SomeD intro: rev_image_eqI)

lemma set_mapSet: "e \<in> set (mapSet k v m) \<Longrightarrow> e = (k, v) \<or> e \<in> set m"
  by (induction m) (auto simp: mapSet_def split: if_splits)



section \<open>Properties of the dirty flag\<close>

lemma dirtyInv_new: "dirtyInv (newWorkspace c f)"
  by (simp add: dirtyInv_def newWorkspace_def)

lemma getTypeChecker_clean: "\<not> dirty (snd (getTypeChecker h w))"
  by (simp add: getTypeChecker_def Let_def split: option.split)

lemma getTypeChecker_cache:
  "diagnosticsCache (snd (getTypeChecker h w)) = diagnosticsCache w"
  by (simp add: getTypeChecker_def Let_def split: option.split)

lemma getSemanticDiagnostics_inv:
  assumes inv: "dirtyInv w"
  shows "dirtyInv (snd (getSemanticDiagnostics h sourceFile w))"
proof -
  obtain t w1 where tc: "getTypeChecker h w = (t, w1)" by (cases "getTypeChecker h w")
  have clean: "\<not> dirty w1" using getTypeChecker_clean [of h w] tc by simp
  show ?thesis
    using inv clean tc
    by (auto simp: dirtyInv_def getSemanticDiagnostics_def split: option.split sum.split)
qed

lemma dirtyInv_step:
  assumes inv: "dirtyInv w"
  shows "dirtyInv (step h w c)"
proof (cases c)
  case MarkAsDirty
  with inv show ?thesis by (simp add: dirtyInv_def markAsDirty_def)
next
  case (GetForest sync)
  with inv show ?thesis by (simp add: dirtyInv_def getForest_def Let_def)
next
  case GetTypeChecker
  then show ?thesis using getTypeChecker_clean [of h w] by (simp add: dirtyInv_def)
next
  case (GetSemanticDiagnostics sourceFile)
  with getSemanticDiagnostics_inv [OF inv] show ?thesis by simp
next
  case (GetSyntacticDiagnostics sourceFile)
  then show ?thesis using getTypeChecker_clean [of h w]
    by (auto simp: dirtyInv_def getSyntacticDiagnostics_def split: prod.split)
next
  case (GetSuggestionDiagnostics sourceFile)
  then show ?thesis using getTypeChecker_clean [of h w]
    by (auto simp: dirtyInv_def getSuggestionDiagnostics_def split: prod.split)
qed

lemma dirtyInv_calls: "dirtyInv w \<Longrightarrow> dirtyInv (calls h cs w)"
  unfolding calls_def by (induction cs arbitrary: w) (simp_all add: dirtyInv_step)

text \<open>
  C5, as the code has it. On a clean-to-dirty transition \<open>markAsDirty\<close> sets the flag,
  empties the diagnostics cache and drops the type checker; the type cache is not
  touched: it is the same after the call as before.
\<close>

theorem markAsDirty_transition:
  assumes "\<not> dirty w"
  shows "dirty (markAsDirty w) \<and> diagnosticsCache (markAsDirty w) = []
         \<and> typeChecker (markAsDirty w) = None
         \<and> getTypeCache (markAsDirty w) = getTypeCache w
         \<and> forest (markAsDirty w) = forest w"
  using assms by (simp add: markAsDirty_def getTypeCache_def)

theorem markAsDirty_transition_witness:
  "\<not> dirty exampleWorkspace \<and> dirty (markAsDirty exampleWorkspace)
   \<and> diagnosticsCache (markAsDirty exampleWorkspace) = []
   \<and> typeChecker (markAsDirty exampleWorkspace) = None
   \<and> getTypeCache (markAsDirty exampleWorkspace) = [(''Main.view'', ''Html msg'')]"
proof -
  have clean: "\<not> dirty exampleWorkspace" by (simp add: exampleWorkspace_def)
  have "getTypeCache exampleWorkspace = [(''Main.view'', ''Html msg'')]"
    by (simp add: exampleWorkspace_def getTypeCache_def)
  with clean markAsDirty_transition [OF clean] show ?thesis by simp
qed

text \<open>
  C5 as claimed fails: the example workspace is clean and its type cache holds an
  entry; after \<open>markAsDirty\<close> the flag is set and the type cache still holds it.
\<close>

theorem markAsDirty_typeCache_counterexample:
  "\<not> dirty exampleWorkspace \<and> dirty (markAsDirty exampleWorkspace)
   \<and> getTypeCache (markAsDirty exampleWorkspace) \<noteq> []"
  by (simp add: exampleWorkspace_def markAsDirty_def getTypeCache_def)

text \<open>
  C10. After any sequence of calls to \<open>markAsDirty\<close>, \<open>getForest\<close>,
  \<open>getTypeChecker\<close> and \<open>getSemanticDiagnostics\<close> on a new workspace, also with
  calls to the two other synchronous readers among them, a set dirty flag means that the
  diagnostics cache holds no entry.
\<close>

theorem dirty_has_no_cached_diagnostics:
  "dirty (calls h cs (newWorkspace c f))
     \<longrightarrow> diagnosticsCache (calls h cs (newWorkspace c f)) = []"
  using dirtyInv_calls [OF dirtyInv_new, of h cs c f] by (simp add: dirtyInv_def)

theorem dirty_has_no_cached_diagnostics_witness:
  "diagnosticsCache (calls exampleHost [GetSemanticDiagnostics mainElm]
       (newWorkspace [] 0)) \<noteq> []
   \<and> dirty (calls exampleHost [GetSemanticDiagnostics mainElm, MarkAsDirty]
       (newWorkspace [] 0))
   \<and> diagnosticsCache (calls exampleHost
       [GetSemanticDiagnostics mainElm, MarkAsDirty] (newWorkspace [] 0)) = []"
proof -
  let ?w = "calls exampleHost [GetSemanticDiagnostics mainElm, MarkAsDirty]
       (newWorkspace [] 0)"
  have d: "dirty ?w"
    by (simp add: calls_def exampleHost_def mainElm_def newWorkspace_def
        getSemanticDiagnostics_def getTypeChecker_def markAsDirty_def mapGet_def mapSet_def)
  have full: "diagnosticsCache (calls exampleHost
       [GetSemanticDiagnostics mainElm] (newWorkspace [] 0)) \<noteq> []"
    by (simp add: calls_def exampleHost_def mainElm_def newWorkspace_def
        getSemanticDiagnostics_def getTypeChecker_def mapGet_def mapSet_def)
  from dirty_has_no_cached_diagnostics [of exampleHost
      "[GetSemanticDiagnostics mainElm, MarkAsDirty]" "[]" 0] d
  have "diagnosticsCache ?w = []" by blast
  with d full show ?thesis by blast
qed

text \<open>
  Through the synchronous methods alone the workspace keeps its diagnostics in step with
  the flag: on a workspace reached by any sequence of those calls, after \<open>markAsDirty\<close>
  no URI has a cached entry, so the next \<open>getSemanticDiagnostics\<close> for any source file
  asks the type checker. A \<open>markAsDirty\<close> on a workspace that is already dirty
  changes nothing; on a clean one it empties the cache.
\<close>

lemma markAsDirty_drops_synchronous:
  "(\<forall>uri. mapGet (diagnosticsCache (markAsDirty (calls h cs (newWorkspace c f)))) uri = None)
   \<and> (\<forall>sourceFile.
         fst (getSemanticDiagnostics h sourceFile (markAsDirty (calls h cs (newWorkspace c f))))
          = getDiagnostics h
              (fst (getTypeChecker h (markAsDirty (calls h cs (newWorkspace c f))))) sourceFile)
   \<and> (dirty w \<longrightarrow> markAsDirty w = w)
   \<and> (\<not> dirty w \<longrightarrow> diagnosticsCache (markAsDirty w) = [])"
proof -
  let ?w = "calls h cs (newWorkspace c f)"
  have inv: "dirtyInv ?w" by (rule dirtyInv_calls [OF dirtyInv_new])
  have empty: "diagnosticsCache (markAsDirty ?w) = []"
    using inv by (simp add: dirtyInv_def markAsDirty_def)
  have miss: "\<forall>uri. mapGet (diagnosticsCache (markAsDirty ?w)) uri = None"
    by (simp add: empty mapGet_def)
  have read: "fst (getSemanticDiagnostics h sourceFile (markAsDirty ?w))
          = getDiagnostics h (fst (getTypeChecker h (markAsDirty ?w))) sourceFile"
    for sourceFile
    using miss
    by (cases "getTypeChecker h (markAsDirty ?w)")
       (simp add: getSemanticDiagnostics_def split: sum.split)
  have same: "dirty w \<longrightarrow> markAsDirty w = w" by (simp add: markAsDirty_def)
  have once: "\<not> dirty w \<longrightarrow> diagnosticsCache (markAsDirty w) = []"
    by (simp add: markAsDirty_def)
  from miss read same once show ?thesis by blast
qed

text \<open>
  C7, on an asynchronous read with an edit in between. The read of \<open>Main.elm\<close>
  starts on a new workspace and awaits the type checker of the first forest;
  \<open>markAsDirty\<close> is called while it waits; the continuation then writes the
  diagnostics of the first forest into the cache of the dirty workspace. A further
  \<open>markAsDirty\<close> finds the flag set and clears nothing, and the next
  \<open>getSemanticDiagnostics\<close> returns the entry cached before that call, where the type
  checker it would otherwise have asked reports on the second forest.
\<close>

theorem markAsDirty_keeps_stale_diagnostics:
  "fst startedRead = Awaiting 1
   \<and> dirty (markAsDirty (snd startedRead))
   \<and> dirty staleWorkspace
   \<and> mapGet (diagnosticsCache staleWorkspace) ''file:///src/Main.elm'' = Some [''forest I'']
   \<and> markAsDirty staleWorkspace = staleWorkspace
   \<and> fst (getSemanticDiagnostics versionedHost mainElm (markAsDirty staleWorkspace))
       = Inr [''forest I'']
   \<and> getDiagnostics versionedHost
         (fst (getTypeChecker versionedHost (markAsDirty staleWorkspace))) mainElm
       = Inr [''forest II'']"
  by (simp add: startedRead_def staleWorkspace_def settledWith_def versionedHost_def mainElm_def
      newWorkspace_def getSemanticDiagnosticsAsyncStart_def getSemanticDiagnosticsAsyncResume_def
      getSemanticDiagnostics_def getTypeChecker_def markAsDirty_def mapGet_def mapSet_def
      numeral_2_eq_2)

section \<open>Properties of the solver\<close>

lemma versionsEqual_sym: "versionsEqual v w \<Longrightarrow> versionsEqual w v"
  by (simp add: versionsEqual_def)

lemma versionsEqual_trans: "versionsEqual u v \<Longrightarrow> versionsEqual v w \<Longrightarrow> versionsEqual u w"
  by (simp add: versionsEqual_def)

lemma holds_equal_right: "versionsEqual v w \<Longrightarrow> holds op u v = holds op u w"
  by (cases op) (auto simp: holds_def versionLess_def versionsEqual_def)

lemma holds_equal_left: "versionsEqual v w \<Longrightarrow> holds op v u = holds op w u"
  by (cases op) (auto simp: holds_def versionLess_def versionsEqual_def)

lemma satisfies_equal:
  "versionsEqual v w \<Longrightarrow> versionSatisfiesConstraint v c = versionSatisfiesConstraint w c"
  using holds_equal_right [of v w "lowerOperator c" "lower c"]
        holds_equal_left [of v w "upperOperator c" "upper c"]
  by (simp add: versionSatisfiesConstraint_def)

text \<open>A version within an intersection is within both constraints.\<close>

lemma holds_stricter_left: "holds (stricter a b) u v \<Longrightarrow> holds a u v"
  by (cases a; cases b) (auto simp: holds_def stricter_def)

lemma holds_stricter_right: "holds (stricter a b) u v \<Longrightarrow> holds b u v"
  by (cases a; cases b) (auto simp: holds_def stricter_def)

lemma holds_Lt: "versionLess u v \<Longrightarrow> holds op u v"
  by (cases op) (simp_all add: holds_def)

lemma holds_less_left: "versionLess u u' \<Longrightarrow> holds op u' v \<Longrightarrow> versionLess u v"
  by (cases op) (auto simp: holds_def versionLess_def versionsEqual_def)

lemma holds_less_right: "holds op v u' \<Longrightarrow> versionLess u' u \<Longrightarrow> versionLess v u"
  by (cases op) (auto simp: holds_def versionLess_def versionsEqual_def)

lemma versionLess_cases:
  "versionLess u v \<or> versionLess v u \<or> versionsEqual u v"
  by (auto simp: versionLess_def versionsEqual_def)

lemma intersect_bounds:
  assumes "constraintIntersect a b = Some c"
  shows "greaterLower a b = (lower c, lowerOperator c)"
    and "lesserUpper a b = (upper c, upperOperator c)"
proof -
  obtain lo loOp where l: "greaterLower a b = (lo, loOp)" by (cases "greaterLower a b")
  obtain up upOp where u: "lesserUpper a b = (up, upOp)" by (cases "lesserUpper a b")
  from assms l u
  have "c = \<lparr>upper = up, lower = lo, upperOperator = upOp, lowerOperator = loOp\<rparr>"
    by (simp add: constraintIntersect_def split: if_splits)
  with l u show "greaterLower a b = (lower c, lowerOperator c)"
    and "lesserUpper a b = (upper c, upperOperator c)" by simp_all
qed

lemma greaterLower_holds:
  assumes "greaterLower a b = (lo, loOp)" and "holds loOp lo v"
  shows "holds (lowerOperator a) (lower a) v \<and> holds (lowerOperator b) (lower b) v"
proof -
  consider (lt) "versionLess (lower a) (lower b)"
    | (gt) "\<not> versionLess (lower a) (lower b)" "versionLess (lower b) (lower a)"
    | (eq) "\<not> versionLess (lower a) (lower b)" "\<not> versionLess (lower b) (lower a)"
    by blast
  then show ?thesis
  proof cases
    case lt
    with assms(1) have c: "lo = lower b" "loOp = lowerOperator b"
      by (simp_all add: greaterLower_def)
    from assms(2) c have hb: "holds (lowerOperator b) (lower b) v" by simp
    from holds_less_left [OF lt hb] have "holds (lowerOperator a) (lower a) v"
      by (rule holds_Lt)
    with hb show ?thesis by simp
  next
    case gt
    with assms(1) have c: "lo = lower a" "loOp = lowerOperator a"
      by (simp_all add: greaterLower_def)
    from assms(2) c have ha: "holds (lowerOperator a) (lower a) v" by simp
    from holds_less_left [OF gt(2) ha] have "holds (lowerOperator b) (lower b) v"
      by (rule holds_Lt)
    with ha show ?thesis by simp
  next
    case eq
    with assms(1) have c: "lo = lower a" "loOp = stricter (lowerOperator a) (lowerOperator b)"
      by (simp_all add: greaterLower_def)
    from eq have e: "versionsEqual (lower a) (lower b)"
      using versionLess_cases [of "lower a" "lower b"] by blast
    from assms(2) c have h: "holds (stricter (lowerOperator a) (lowerOperator b)) (lower a) v"
      by simp
    have ha: "holds (lowerOperator a) (lower a) v" by (rule holds_stricter_left [OF h])
    have "holds (lowerOperator b) (lower a) v" by (rule holds_stricter_right [OF h])
    then have "holds (lowerOperator b) (lower b) v"
      using holds_equal_left [OF e, of "lowerOperator b" v] by simp
    with ha show ?thesis by simp
  qed
qed

lemma lesserUpper_holds:
  assumes "lesserUpper a b = (up, upOp)" and "holds upOp v up"
  shows "holds (upperOperator a) v (upper a) \<and> holds (upperOperator b) v (upper b)"
proof -
  consider (lt) "versionLess (upper a) (upper b)"
    | (gt) "\<not> versionLess (upper a) (upper b)" "versionLess (upper b) (upper a)"
    | (eq) "\<not> versionLess (upper a) (upper b)" "\<not> versionLess (upper b) (upper a)"
    by blast
  then show ?thesis
  proof cases
    case lt
    with assms(1) have c: "up = upper a" "upOp = upperOperator a"
      by (simp_all add: lesserUpper_def)
    from assms(2) c have ha: "holds (upperOperator a) v (upper a)" by simp
    from holds_less_right [OF ha lt] have "holds (upperOperator b) v (upper b)"
      by (rule holds_Lt)
    with ha show ?thesis by simp
  next
    case gt
    with assms(1) have c: "up = upper b" "upOp = upperOperator b"
      by (simp_all add: lesserUpper_def)
    from assms(2) c have hb: "holds (upperOperator b) v (upper b)" by simp
    from holds_less_right [OF hb gt(2)] have "holds (upperOperator a) v (upper a)"
      by (rule holds_Lt)
    with hb show ?thesis by simp
  next
    case eq
    with assms(1) have c: "up = upper a" "upOp = stricter (upperOperator a) (upperOperator b)"
      by (simp_all add: lesserUpper_def)
    from eq have e: "versionsEqual (upper a) (upper b)"
      using versionLess_cases [of "upper a" "upper b"] by blast
    from assms(2) c have h: "holds (stricter (upperOperator a) (upperOperator b)) v (upper a)"
      by simp
    have ha: "holds (upperOperator a) v (upper a)" by (rule holds_stricter_left [OF h])
    have "holds (upperOperator b) v (upper a)" by (rule holds_stricter_right [OF h])
    then have "holds (upperOperator b) v (upper b)"
      using holds_equal_right [OF e, of "upperOperator b" v] by simp
    with ha show ?thesis by simp
  qed
qed

lemma intersect_satisfies:
  assumes "constraintIntersect a b = Some c" and "versionSatisfiesConstraint v c"
  shows "versionSatisfiesConstraint v a \<and> versionSatisfiesConstraint v b"
proof -
  from assms(2) have l: "holds (lowerOperator c) (lower c) v"
    and u: "holds (upperOperator c) v (upper c)"
    by (simp_all add: versionSatisfiesConstraint_def)
  from greaterLower_holds [OF intersect_bounds(1) [OF assms(1)] l]
       lesserUpper_holds [OF intersect_bounds(2) [OF assms(1)] u]
  show ?thesis by (simp add: versionSatisfiesConstraint_def)
qed

lemma meets_intersect:
  assumes "constraintIntersect d c = Some e" and "meets r (n, e)"
  shows "meets r (n, d) \<and> meets r (n, c)"
  using assms intersect_satisfies [OF assms(1)]
  by (auto simp: meets_def split: option.splits)

lemma addConstraint_meets:
  "addConstraint d frontier = Some frontier' \<Longrightarrow> list_all (meets r) frontier'
     \<Longrightarrow> meets r d \<and> list_all (meets r) frontier"
proof (induction d frontier arbitrary: frontier' rule: addConstraint.induct)
  case (1 n c)
  then show ?case by auto
next
  case (2 n c m d frontier)
  show ?case
  proof (cases "m = n")
    case True
    with "2.prems"(1) obtain e where e: "constraintIntersect d c = Some e"
      and f: "frontier' = (m, e) # frontier"
      by (auto split: option.splits)
    from "2.prems"(2) f True have "meets r (n, e)" "list_all (meets r) frontier" by simp_all
    with meets_intersect [OF e] True show ?thesis by simp
  next
    case False
    with "2.prems"(1) obtain f1 where f1: "addConstraint (n, c) frontier = Some f1"
      and f: "frontier' = (m, d) # f1"
      by (auto split: option.splits)
    from "2.prems"(2) f have "meets r (m, d)" "list_all (meets r) f1" by simp_all
    with "2.IH"(1) [OF False f1] show ?thesis by simp
  qed
qed

lemma addConstraints_meets:
  "addConstraints ds frontier = Some frontier' \<Longrightarrow> list_all (meets r) frontier'
     \<Longrightarrow> list_all (meets r) ds \<and> list_all (meets r) frontier"
proof (induction ds arbitrary: frontier)
  case Nil
  then show ?case by simp
next
  case (Cons d ds)
  from Cons.prems(1) obtain f1 where f1: "addConstraint d frontier = Some f1"
    and rest: "addConstraints ds f1 = Some frontier'"
    by (auto split: option.splits)
  from Cons.IH [OF rest Cons.prems(2)] have "list_all (meets r) ds" "list_all (meets r) f1"
    by simp_all
  with addConstraint_meets [OF f1] show ?case by simp
qed

lemma set_insertDescending: "set (insertDescending p ps) = insert p (set ps)"
  by (induction ps) auto

lemma set_sortDescending: "set (sortDescending ps) = set ps"
  by (induction ps) (simp_all add: sortDescending_def set_insertDescending)

lemma candidatesFor_set:
  "p \<in> set (candidatesFor assignment name c available) \<Longrightarrow>
     p \<in> set available \<and> versionSatisfiesConstraint (ipVersion p) c
     \<and> (\<forall>v. mapGet assignment name = Some v \<longrightarrow> versionsEqual (ipVersion p) v)"
  by (auto simp: candidatesFor_def set_sortDescending split: option.splits)

lemma candidate_solved:
  assumes sub: "solved cache frontier (mapSet name (ipVersion p) assignment) solution"
      and add: "addConstraints (ipDependencies p) rest = Some frontier"
      and av: "p \<in> set (versionsOf cache name)"
      and sat: "versionSatisfiesConstraint (ipVersion p) c"
      and same: "\<forall>v. mapGet assignment name = Some v \<longrightarrow> versionsEqual (ipVersion p) v"
  shows "solved cache ((name, c) # rest) assignment solution"
proof -
  let ?a = "mapSet name (ipVersion p) assignment"
  from sub have dist: "distinct (mapKeys solution)"
    and front: "list_all (meets solution) frontier"
    and keep: "keeps ?a solution"
    and acc: "accounted cache ?a solution"
    by (simp_all add: solved_def)
  from addConstraints_meets [OF add front]
  have deps: "list_all (meets solution) (ipDependencies p)"
    and rest: "list_all (meets solution) rest" by simp_all
  from keep obtain w where w: "mapGet solution name = Some w" "versionsEqual (ipVersion p) w"
    unfolding keeps_def using mapGet_mapSet [of name "ipVersion p" assignment name] by auto
  from sat w(2) have "versionSatisfiesConstraint w c"
    using satisfies_equal [of "ipVersion p" w c] by simp
  with w(1) have head: "meets solution (name, c)" by (simp add: meets_def)
  have keep': "keeps assignment solution"
    unfolding keeps_def
  proof (intro allI impI)
    fix n v assume a: "mapGet assignment n = Some v"
    show "\<exists>w. mapGet solution n = Some w \<and> versionsEqual v w"
    proof (cases "n = name")
      case True
      with a same have "versionsEqual (ipVersion p) v" by simp
      then have "versionsEqual v w"
        using w(2) versionsEqual_sym versionsEqual_trans by blast
      with w(1) True show ?thesis by simp
    next
      case False
      with a have "mapGet ?a n = Some v" by (simp add: mapGet_mapSet)
      with keep show ?thesis unfolding keeps_def by blast
    qed
  qed
  have acc': "accounted cache assignment solution"
    unfolding accounted_def
  proof
    fix a assume a: "a \<in> set solution"
    from acc a consider
      (old) v where "mapGet ?a (fst a) = Some v" "versionsEqual v (snd a)"
      | (new) "chosenFrom cache solution a"
      unfolding accounted_def by blast
    then show "(\<exists>v. mapGet assignment (fst a) = Some v \<and> versionsEqual v (snd a))
        \<or> chosenFrom cache solution a"
    proof cases
      case old
      show ?thesis
      proof (cases "fst a = name")
        case True
        with old have "versionsEqual (ipVersion p) (snd a)" by (simp add: mapGet_mapSet)
        with av deps True have "chosenFrom cache solution a"
          by (auto simp: chosenFrom_def list_ex_iff)
        then show ?thesis ..
      next
        case False
        with old show ?thesis by (auto simp: mapGet_mapSet)
      qed
    next
      case new
      then show ?thesis ..
    qed
  qed
  from dist head rest keep' acc' show ?thesis by (simp add: solved_def)
qed

lemma tryCandidates_solved:
  assumes rec: "\<And>frontier assignment solution.
          recurse frontier assignment = Some (Inr (Some solution))
            \<Longrightarrow> distinct (mapKeys assignment) \<Longrightarrow> solved cache frontier assignment solution"
      and dist: "distinct (mapKeys assignment)"
  shows "tryCandidates recurse name rest assignment candidates = Some (Inr (Some solution))
     \<Longrightarrow> \<forall>p \<in> set candidates. p \<in> set (versionsOf cache name)
           \<and> versionSatisfiesConstraint (ipVersion p) c
           \<and> (\<forall>v. mapGet assignment name = Some v \<longrightarrow> versionsEqual (ipVersion p) v)
     \<Longrightarrow> solved cache ((name, c) # rest) assignment solution"
proof (induction candidates)
  case Nil
  then show ?case by simp
next
  case (Cons p ps)
  from Cons.prems(2) have ps: "\<forall>p \<in> set ps. p \<in> set (versionsOf cache name)
           \<and> versionSatisfiesConstraint (ipVersion p) c
           \<and> (\<forall>v. mapGet assignment name = Some v \<longrightarrow> versionsEqual (ipVersion p) v)"
    by simp
  show ?case
  proof (cases "addConstraints (ipDependencies p) rest")
    case None
    with Cons.prems(1) have "tryCandidates recurse name rest assignment ps = Some (Inr (Some solution))"
      by simp
    from Cons.IH [OF this ps] show ?thesis .
  next
    case (Some frontier)
    let ?a = "mapSet name (ipVersion p) assignment"
    show ?thesis
    proof (cases "recurse frontier ?a = Some (Inr (Some solution))")
      case True
      from rec [OF True mapKeys_mapSet_distinct [OF dist]]
      have "solved cache frontier ?a solution" .
      from candidate_solved [OF this Some] Cons.prems(2) show ?thesis by simp
    next
      case False
      with Cons.prems(1) Some
      have "tryCandidates recurse name rest assignment ps = Some (Inr (Some solution))"
        by (auto split: option.splits sum.splits)
      from Cons.IH [OF this ps] show ?thesis .
    qed
  qed
qed

lemma solveWorker_solved:
  "solveWorker fuel cache frontier assignment = Some (Inr (Some solution))
     \<Longrightarrow> distinct (mapKeys assignment) \<Longrightarrow> solved cache frontier assignment solution"
proof (induction fuel arbitrary: frontier assignment solution)
  case 0
  then show ?case by simp
next
  case (Suc fuel)
  show ?case
  proof (cases frontier)
    case Nil
    with Suc.prems have "solution = assignment" by simp
    with Suc.prems(2) Nil show ?thesis
      by (auto simp: solved_def keeps_def accounted_def versionsEqual_def
          mapGet_def mapKeys_def)
  next
    case (Cons d rest)
    obtain name c where d: "d = (name, c)" by (cases d)
    from Suc.prems(1) Cons d obtain available where av: "cache name = Inr available"
      and t: "tryCandidates (solveWorker fuel cache) name rest assignment
                (candidatesFor assignment name c available) = Some (Inr (Some solution))"
      by (auto split: sum.splits)
    have "\<forall>p \<in> set (candidatesFor assignment name c available).
            p \<in> set (versionsOf cache name) \<and> versionSatisfiesConstraint (ipVersion p) c
            \<and> (\<forall>v. mapGet assignment name = Some v \<longrightarrow> versionsEqual (ipVersion p) v)"
      using candidatesFor_set [of _ assignment name c available] av
      by (auto simp: versionsOf_def)
    from tryCandidates_solved [of "solveWorker fuel cache" cache, OF Suc.IH Suc.prems(2) t this]
    show ?thesis using Cons d by simp
  qed
qed

lemma solveDependencies_resolves:
  assumes "solveDependencies fuel cache deps = Some (Inr (Some solution))"
  shows "resolves cache deps solution"
proof -
  from assms have "solved cache deps [] solution"
    using solveWorker_solved [of fuel cache deps "[]" solution]
    by (simp add: solveDependencies_def mapKeys_def)
  then show ?thesis
    by (auto simp: solved_def resolves_def accounted_def mapGet_empty list_all_iff)
qed


text \<open>
  C1. When the solver returns versions for a constraint map, every constraint of the
  map is satisfied by the version assigned to its name, and every assigned version is
  the version of a package of the cache all of whose own constraints are satisfied by
  the versions assigned to their names. No name is assigned twice.
\<close>

theorem solveDependencies_sound:
  assumes "solveDependencies fuel cache deps = Some (Inr (Some solution))"
  shows "(\<forall>(n, c) \<in> set deps.
            \<exists>v. mapGet solution n = Some v \<and> versionSatisfiesConstraint v c)
       \<and> (\<forall>(m, w) \<in> set solution.
            \<exists>p \<in> set (versionsOf cache m). versionsEqual (ipVersion p) w
              \<and> (\<forall>(n, c) \<in> set (ipDependencies p).
                    \<exists>v. mapGet solution n = Some v \<and> versionSatisfiesConstraint v c))
       \<and> distinct (mapKeys solution)"
proof -
  from solveDependencies_resolves [OF assms]
  have d: "distinct (mapKeys solution)" and r: "list_all (meets solution) deps"
    and c: "list_all (chosenFrom cache solution) solution"
    by (simp_all add: resolves_def)
  have m: "meets solution (n, c) \<Longrightarrow> \<exists>v. mapGet solution n = Some v \<and> versionSatisfiesConstraint v c"
    for n c by (auto simp: meets_def split: option.splits)
  from r m have root: "\<forall>(n, c) \<in> set deps.
            \<exists>v. mapGet solution n = Some v \<and> versionSatisfiesConstraint v c"
    by (auto simp: list_all_iff)
  have chosen: "\<forall>(m, w) \<in> set solution.
            \<exists>p \<in> set (versionsOf cache m). versionsEqual (ipVersion p) w
              \<and> (\<forall>(n, c) \<in> set (ipDependencies p).
                    \<exists>v. mapGet solution n = Some v \<and> versionSatisfiesConstraint v c)"
  proof (clarify)
    fix m w assume "(m, w) \<in> set solution"
    with c have "chosenFrom cache solution (m, w)" by (simp add: list_all_iff)
    then obtain p where p: "p \<in> set (versionsOf cache m)" "versionsEqual (ipVersion p) w"
      "list_all (meets solution) (ipDependencies p)"
      by (auto simp: chosenFrom_def list_ex_iff)
    from p(3) m have "\<forall>(n, c) \<in> set (ipDependencies p).
                    \<exists>v. mapGet solution n = Some v \<and> versionSatisfiesConstraint v c"
      by (auto simp: list_all_iff)
    with p(1,2) show "\<exists>p \<in> set (versionsOf cache m). versionsEqual (ipVersion p) w
              \<and> (\<forall>(n, c) \<in> set (ipDependencies p).
                    \<exists>v. mapGet solution n = Some v \<and> versionSatisfiesConstraint v c)"
      by blast
  qed
  from root chosen d show ?thesis by blast
qed

lemma exampleCache_solved:
  "solveDependencies 4 exampleCache exampleDeps = Some (Inr (Some exampleSolution))"
  by code_simp

theorem solveDependencies_sound_witness:
  "solveDependencies 4 exampleCache exampleDeps = Some (Inr (Some exampleSolution))
   \<and> (\<exists>v. mapGet exampleSolution ''author/a'' = Some v
          \<and> versionSatisfiesConstraint v (between v100 v200))
   \<and> (\<exists>p \<in> set (versionsOf exampleCache ''author/a''). versionsEqual (ipVersion p) v100
          \<and> (\<exists>v. mapGet exampleSolution ''author/c'' = Some v
                \<and> versionSatisfiesConstraint v (between v100 v200)))"
proof -
  note s = solveDependencies_sound [OF exampleCache_solved]
  from s have "\<exists>v. mapGet exampleSolution ''author/a'' = Some v
          \<and> versionSatisfiesConstraint v (between v100 v200)"
    by (simp add: exampleDeps_def)
  moreover from s have "\<exists>p \<in> set (versionsOf exampleCache ''author/a'').
      versionsEqual (ipVersion p) v100
      \<and> (\<forall>(n, c) \<in> set (ipDependencies p).
            \<exists>v. mapGet exampleSolution n = Some v \<and> versionSatisfiesConstraint v c)"
    by (simp add: exampleSolution_def)
  then have "\<exists>p \<in> set (versionsOf exampleCache ''author/a''). versionsEqual (ipVersion p) v100
          \<and> (\<exists>v. mapGet exampleSolution ''author/c'' = Some v
                \<and> versionSatisfiesConstraint v (between v100 v200))"
    by (auto simp: versionsOf_def exampleCache_def versionsEqual_def v100_def v110_def ver_def)
  ultimately show ?thesis using exampleCache_solved by blast
qed

section \<open>The solver returns on a populated store\<close>


lemma weight_tail: "k \<noteq> m \<Longrightarrow> weight (m # ms) k = weight ms k"
  by simp














section \<open>Loading the root project\<close>









text \<open>
  C6, on the example application: \<open>elm/core\<close> is listed as an indirect dependency
  and \<open>elm-explorations/test\<close> as a test dependency, and both are entries of the
  root project's \<open>dependencies\<close>, because \<open>Object.assign\<close> has written them
  into \<open>dependencies.direct\<close> before it is read. \<open>testDependencies\<close> holds the
  direct test dependencies only.
\<close>

theorem loadRootProject_application_example:
  "case loadRootProject 3 exampleProgramHost (\<lambda>deps. None) ''/proj/elm.json'' newLoader of
     Some (Inr root, st) \<Rightarrow>
       mapKeys (dependencies (heap st root))
         = [''elm/html'', ''elm/json'', ''elm/core'', ''elm-explorations/test'']
       \<and> mapKeys (testDependencies (heap st root)) = [''elm-explorations/test'']
   | _ \<Rightarrow> False"
  by code_simp

section \<open>Properties of local discovery\<close>

lemma splitOn_not_empty: "splitOn c s \<noteq> []"
  by (induction s) (auto split: list.splits)

lemma joinWith_Cons:
  "parts \<noteq> [] \<Longrightarrow> joinWith separator (part # parts) = part @ separator @ joinWith separator parts"
  by (cases parts) simp_all

lemma join_split: "joinWith [d] (splitOn c s) = map (\<lambda>x. if x = c then d else x) s"
proof (induction s)
  case Nil
  show ?case by simp
next
  case (Cons x s)
  obtain part parts where sp: "splitOn c s = part # parts"
    using splitOn_not_empty [of c s] by (cases "splitOn c s") auto
  show ?case
  proof (cases "x = c")
    case True
    with Cons sp show ?thesis by (simp add: joinWith_Cons)
  next
    case False
    from Cons sp have "joinWith [d] ((x # part) # parts) = x # joinWith [d] (part # parts)"
      by (cases parts) simp_all
    with False Cons sp show ?thesis by simp
  qed
qed

text \<open>
  What the module-name expression computes: the relative path with its first
  \<open>.elm\<close> taken out, wherever that is, and every slash turned into a dot.
\<close>

lemma moduleNameOf_eq:
  "moduleNameOf relativePath
     = map (\<lambda>c. if c = CHR ''/'' then CHR ''.'' else c) (replaceFirst ''.elm'' [] relativePath)"
  by (simp add: moduleNameOf_def join_split)

text \<open>
  C9, on the example directory: the file \<open>Page.elmish/View.elm\<close> is recorded under
  \<open>Pageish.View.elm\<close>, not under the name the claim gives it, \<open>Page.elmish.View\<close>:
  the \<open>.elm\<close> that is removed is the first one, in the folder's name, and the
  extension stays. The older copy of the expression, which splits at backslashes,
  leaves the slashes of a relative path in the name.
\<close>

theorem moduleName_first_elm_example:
  "(case findElmFilesInProjectWorker exampleDirectoryHost ''/proj/src'' 0 (heap newLoader) of
      Inr (elmFiles, hp) \<Rightarrow>
        moduleToUriMap (hp 0)
          = [(''Main'', ''file:///proj/src/Main.elm''),
             (''Pageish.View.elm'', ''file:///proj/src/Page.elmish/View.elm'')]
    | Inl e \<Rightarrow> False)
   \<and> moduleNameOf ''Page.elmish/View.elm'' = ''Pageish.View.elm''
   \<and> claimedModuleName ''Page.elmish/View.elm'' = ''Page.elmish.View''
   \<and> moduleNameOfBackslash ''Page/View.elm'' = ''Page/View''
   \<and> claimedModuleName ''Page/View.elm'' = ''Page.View''"
  by code_simp

section \<open>Properties of the forest population\<close>

lemma readAndAddToForest_failure:
  "failureOf h x = Some e \<Longrightarrow>
     readAndAddToForest h root x st = st\<lparr>consoleErrors := consoleErrors st @ [e]\<rparr>"
  by (auto simp: failureOf_def readAndAddToForest_def split: sum.splits)

lemma readAndAddToForest_success:
  "treeOf h x = Some t \<Longrightarrow>
     readAndAddToForest h root x st =
       st\<lparr>treeMap :=
            setTree (sourceFileUri h (filePath x)) (fileProject x = root)
              True t (fileProject x) (fileMaintainerAndPackageName x) (treeMap st),
          progressReports := Suc (progressReports st)\<rparr>"
  by (auto simp: treeOf_def readAndAddToForest_def split: sum.splits)

lemma failure_or_tree:
  "(\<exists>e. failureOf h x = Some e \<and> treeOf h x = None)
   \<or> (\<exists>t. failureOf h x = None \<and> treeOf h x = Some t)"
  by (auto simp: failureOf_def treeOf_def split: sum.splits)

lemma addAllToForest_snoc:
  "addAllToForest h root (files @ [x]) st
     = readAndAddToForest h root x (addAllToForest h root files st)"
  by (simp add: addAllToForest_def)

lemma addAllToForest_entries:
  "x \<in> set files \<Longrightarrow>
     (case failureOf h x of
        Some e \<Rightarrow> e \<in> set (consoleErrors (addAllToForest h root files st))
      | None \<Rightarrow>
          (\<exists>entry. mapGet (treeMap (addAllToForest h root files st))
                      (sourceFileUri h (filePath x)) = Some entry
             \<and> (\<exists>g \<in> set files. sourceFileUri h (filePath g) = sourceFileUri h (filePath x)
                    \<and> treeOf h g = Some (tree entry))))"
proof (induction files arbitrary: x rule: rev_induct)
  case Nil
  then show ?case by simp
next
  case (snoc f fs)
  let ?s = "addAllToForest h root fs st"
  from failure_or_tree [of h f] show ?case
  proof (elim disjE exE conjE)
    fix e assume fe: "failureOf h f = Some e" "treeOf h f = None"
    then have step: "addAllToForest h root (fs @ [f]) st
        = ?s\<lparr>consoleErrors := consoleErrors ?s @ [e]\<rparr>"
      by (simp add: addAllToForest_snoc readAndAddToForest_failure)
    show ?thesis
    proof (cases "x = f")
      case True
      with fe step show ?thesis by simp
    next
      case False
      with snoc.prems have "x \<in> set fs" by simp
      from snoc.IH [OF this] step show ?thesis
        by (auto split: option.splits)
    qed
  next
    fix t assume ft: "failureOf h f = None" "treeOf h f = Some t"
    then have step: "addAllToForest h root (fs @ [f]) st
        = ?s\<lparr>treeMap :=
            setTree (sourceFileUri h (filePath f)) (fileProject f = root)
              True t (fileProject f) (fileMaintainerAndPackageName f) (treeMap ?s),
          progressReports := Suc (progressReports ?s)\<rparr>"
      by (simp add: addAllToForest_snoc readAndAddToForest_success)
    show ?thesis
    proof (cases "sourceFileUri h (filePath x) = sourceFileUri h (filePath f)")
      case same: True
      show ?thesis
      proof (cases "failureOf h x")
        case None
        with same ft step show ?thesis
          by (auto simp: setTree_def mapGet_mapSet intro!: bexI [of _ f])
      next
        case (Some e)
        with same have "x \<noteq> f" using ft by auto
        with snoc.prems have "x \<in> set fs" by simp
        from snoc.IH [OF this] Some step show ?thesis by simp
      qed
    next
      case other: False
      then have "x \<noteq> f" by auto
      with snoc.prems have "x \<in> set fs" by simp
      from snoc.IH [OF this] step other show ?thesis
        by (auto simp: setTree_def mapGet_mapSet split: option.splits)
    qed
  qed
qed

lemma addAllToForest_keys:
  "mapHas (treeMap (addAllToForest h root files st)) u \<Longrightarrow>
     mapHas (treeMap st) u
     \<or> (\<exists>x \<in> set files. u = sourceFileUri h (filePath x) \<and> failureOf h x = None)"
proof (induction files rule: rev_induct)
  case Nil
  then show ?case by (simp add: addAllToForest_def)
next
  case (snoc f fs)
  let ?s = "addAllToForest h root fs st"
  from failure_or_tree [of h f] show ?case
  proof (elim disjE exE conjE)
    fix e assume fe: "failureOf h f = Some e" "treeOf h f = None"
    then have "treeMap (addAllToForest h root (fs @ [f]) st) = treeMap ?s"
      by (simp add: addAllToForest_snoc readAndAddToForest_failure)
    with snoc show ?thesis by auto
  next
    fix t assume ft: "failureOf h f = None" "treeOf h f = Some t"
    then have "treeMap (addAllToForest h root (fs @ [f]) st)
        = setTree (sourceFileUri h (filePath f)) (fileProject f = root)
              True t (fileProject f) (fileMaintainerAndPackageName f) (treeMap ?s)"
      by (simp add: addAllToForest_snoc readAndAddToForest_success)
    with snoc.prems have "u = sourceFileUri h (filePath f) \<or> mapHas (treeMap ?s) u"
      by (simp add: setTree_def mapHas_mapSet)
    with snoc.IH ft show ?thesis by auto
  qed
qed

text \<open>
  C8. Whatever the batch and the order in which its reads complete: every file that
  cannot be read or parsed has its error on the console; every file that can has an
  entry under its URI, holding the tree of a file of the batch with that URI; and the
  forest has no URI that it did not have before other than those of the files that
  could be read and parsed.
\<close>

theorem addAllToForest_isolates_failures:
  "(\<forall>x \<in> set files.
      case failureOf h x of
        Some e \<Rightarrow> e \<in> set (consoleErrors (addAllToForest h root files st))
      | None \<Rightarrow>
          (\<exists>entry. mapGet (treeMap (addAllToForest h root files st))
                      (sourceFileUri h (filePath x)) = Some entry
             \<and> (\<exists>g \<in> set files. sourceFileUri h (filePath g) = sourceFileUri h (filePath x)
                    \<and> treeOf h g = Some (tree entry))))
   \<and> (\<forall>u. mapHas (treeMap (addAllToForest h root files st)) u \<longrightarrow>
          mapHas (treeMap st) u
          \<or> (\<exists>x \<in> set files. u = sourceFileUri h (filePath x) \<and> failureOf h x = None))"
  using addAllToForest_entries [of _ files h root st] addAllToForest_keys [of h root files st]
  by blast

theorem addAllToForest_isolates_failures_witness:
  "FileReadFailure ''/proj/src/Gone.elm''
     \<in> set (consoleErrors (addAllToForest exampleSourceHost 4 exampleBatch emptyPopulation))
   \<and> (\<exists>entry. mapGet (treeMap (addAllToForest exampleSourceHost 4 exampleBatch emptyPopulation))
                 ''file:///proj/src/Util.elm'' = Some entry)
   \<and> \<not> mapHas (treeMap (addAllToForest exampleSourceHost 4 exampleBatch emptyPopulation))
           ''file:///proj/src/Gone.elm''
   \<and> \<not> mapHas (treeMap (addAllToForest exampleSourceHost 4 exampleBatch emptyPopulation))
           ''file:///proj/src/Broken.elm''"
proof -
  let ?gone = "\<lparr>filePath = ''/proj/src/Gone.elm'', fileMaintainerAndPackageName = None,
                 fileProject = 4\<rparr>"
  let ?util = "\<lparr>filePath = ''/proj/src/Util.elm'', fileMaintainerAndPackageName = None,
                 fileProject = 4\<rparr>"
  note t = addAllToForest_isolates_failures [of exampleBatch exampleSourceHost 4 emptyPopulation]
  have gone: "?gone \<in> set exampleBatch" and util: "?util \<in> set exampleBatch"
    by (simp_all add: exampleBatch_def)
  have fg: "failureOf exampleSourceHost ?gone = Some (FileReadFailure ''/proj/src/Gone.elm'')"
    by (simp add: failureOf_def exampleSourceHost_def)
  have fu: "failureOf exampleSourceHost ?util = None"
    by (simp add: failureOf_def exampleSourceHost_def)
  have uu: "sourceFileUri exampleSourceHost (filePath ?util) = ''file:///proj/src/Util.elm''"
    by (simp add: exampleSourceHost_def)
  from t gone fg have a: "FileReadFailure ''/proj/src/Gone.elm''
     \<in> set (consoleErrors (addAllToForest exampleSourceHost 4 exampleBatch emptyPopulation))"
    by force
  from t util fu uu
  have b: "\<exists>entry. mapGet (treeMap (addAllToForest exampleSourceHost 4 exampleBatch emptyPopulation))
                 ''file:///proj/src/Util.elm'' = Some entry"
    by force
  have none: "\<not> mapHas (treeMap emptyPopulation) u" for u
    by (simp add: emptyPopulation_def mapHas_def mapKeys_def)
  have ok: "\<forall>x \<in> set exampleBatch. failureOf exampleSourceHost x = None \<longrightarrow>
      sourceFileUri exampleSourceHost (filePath x) \<noteq> ''file:///proj/src/Gone.elm''
      \<and> sourceFileUri exampleSourceHost (filePath x) \<noteq> ''file:///proj/src/Broken.elm''"
    by (simp add: exampleBatch_def failureOf_def exampleSourceHost_def)
  note k = t [THEN conjunct2, rule_format]
  have c: "\<not> mapHas (treeMap (addAllToForest exampleSourceHost 4 exampleBatch emptyPopulation))
           ''file:///proj/src/Gone.elm''"
    using k [of "''file:///proj/src/Gone.elm''"] none ok by metis
  have d: "\<not> mapHas (treeMap (addAllToForest exampleSourceHost 4 exampleBatch emptyPopulation))
           ''file:///proj/src/Broken.elm''"
    using k [of "''file:///proj/src/Broken.elm''"] none ok by metis
  from a b c d show ?thesis by blast
qed

section \<open>Properties of exposure propagation\<close>

lemma copy_table_keys:
  "mapHas (foldl (\<lambda>table (module, u). if module \<in> E then mapSet module u table else table)
             table entries) m
     \<Longrightarrow> mapHas table m \<or> m \<in> E"
proof (induction entries arbitrary: table)
  case Nil
  then show ?case by simp
next
  case (Cons entry entries)
  obtain module u where e: "entry = (module, u)" by (cases entry)
  from Cons.prems e Cons.IH [of "if module \<in> E then mapSet module u table else table"]
  show ?case by (auto simp: mapHas_mapSet split: if_splits)
qed

lemma copy_table_entries:
  "(m, u) \<in> set (foldl (\<lambda>table (module, u). if module \<in> E then mapSet module u table else table)
             table entries)
     \<Longrightarrow> (m, u) \<in> set table \<or> (m \<in> E \<and> (m, u) \<in> set entries)"
proof (induction entries arbitrary: table)
  case Nil
  then show ?case by simp
next
  case (Cons entry entries)
  obtain module v where e: "entry = (module, v)" by (cases entry)
  have upd: "(m, u) \<in> set (mapSet module v table) \<Longrightarrow> (m, u) \<in> set table \<or> (m, u) = (module, v)"
    by (induction table) (auto simp: mapSet_def split: if_splits)
  from Cons.prems e Cons.IH [of "if module \<in> E then mapSet module v table else table"] upd
  show ?case by (auto split: if_splits)
qed

lemma sameGraph_refl: "sameGraph hp hp"
  by (simp add: sameGraph_def)

lemma sameGraph_trans: "sameGraph a b \<Longrightarrow> sameGraph b c \<Longrightarrow> sameGraph a c"
  by (simp add: sameGraph_def)

lemma sameGraph_copiedFrom: "sameGraph hp hp' \<Longrightarrow> copiedFrom r hp' q = copiedFrom r hp q"
  by (simp add: sameGraph_def copiedFrom_def)

lemma onlyExposed_refl: "onlyExposed r hp hp"
  by (simp add: onlyExposed_def)

lemma onlyExposed_trans:
  assumes "sameGraph a b" "onlyExposed r a b" "onlyExposed r b c"
  shows "onlyExposed r a c"
  unfolding onlyExposed_def
proof (intro allI impI)
  fix q module assume "mapHas (moduleToUriMap (c q)) module"
  with assms(3) consider "mapHas (moduleToUriMap (b q)) module"
    | dep where "dep \<in> set (copiedFrom r b q)" "module \<in> set (exposedModules (b dep))"
    unfolding onlyExposed_def by blast
  then show "mapHas (moduleToUriMap (a q)) module
      \<or> (\<exists>dep \<in> set (copiedFrom r a q). module \<in> set (exposedModules (a dep)))"
  proof cases
    case 1
    with assms(2) show ?thesis unfolding onlyExposed_def by blast
  next
    case 2
    with assms(1) sameGraph_copiedFrom [OF assms(1)] show ?thesis
      by (auto simp: sameGraph_def)
  qed
qed

lemma copyExposedModules_sameGraph: "sameGraph hp (copyExposedModules p d hp)"
  by (simp add: sameGraph_def copyExposedModules_def)

lemma copyExposedModules_onlyExposed:
  assumes "d \<in> set (copiedFrom r hp p)"
  shows "onlyExposed r hp (copyExposedModules p d hp)"
  unfolding onlyExposed_def
proof (intro allI impI)
  fix q module assume h: "mapHas (moduleToUriMap (copyExposedModules p d hp q)) module"
  show "mapHas (moduleToUriMap (hp q)) module
      \<or> (\<exists>dep \<in> set (copiedFrom r hp q). module \<in> set (exposedModules (hp dep)))"
  proof (cases "q = p")
    case True
    with h have "mapHas (moduleToUriMap (hp p)) module \<or> module \<in> set (exposedModules (hp d))"
      using copy_table_keys [of "set (exposedModules (hp d))" "moduleToUriMap (hp p)"
          "moduleToUriMap (hp d)" module]
      by (simp add: copyExposedModules_def)
    with True assms show ?thesis by blast
  next
    case False
    with h show ?thesis by (simp add: copyExposedModules_def)
  qed
qed

lemma loadForDependencies_onlyExposed:
  assumes rec: "\<And>d hp hp'. recurse d hp = Some hp' \<Longrightarrow> sameGraph hp hp' \<and> onlyExposed r hp hp'"
  shows "loadForDependencies recurse p deps hp = Some hp' \<Longrightarrow> set deps \<subseteq> set (copiedFrom r hp p)
     \<Longrightarrow> sameGraph hp hp' \<and> onlyExposed r hp hp'"
proof (induction deps arbitrary: hp)
  case Nil
  then show ?case by (simp add: sameGraph_refl onlyExposed_refl)
next
  case (Cons d deps)
  let ?c = "copyExposedModules p d hp"
  from Cons.prems(1) obtain hp1 where r1: "recurse d ?c = Some hp1"
    and rest: "loadForDependencies recurse p deps hp1 = Some hp'"
    by (auto split: option.splits)
  from Cons.prems(2) have d: "d \<in> set (copiedFrom r hp p)" by simp
  have g0: "sameGraph hp ?c" by (rule copyExposedModules_sameGraph)
  have e0: "onlyExposed r hp ?c" by (rule copyExposedModules_onlyExposed [OF d])
  from rec [OF r1] have g1: "sameGraph ?c hp1" and e1: "onlyExposed r ?c hp1" by simp_all
  have g01: "sameGraph hp hp1" by (rule sameGraph_trans [OF g0 g1])
  have e01: "onlyExposed r hp hp1" by (rule onlyExposed_trans [OF g0 e0 e1])
  from Cons.prems(2) sameGraph_copiedFrom [OF g01, of r p]
  have "set deps \<subseteq> set (copiedFrom r hp1 p)" by simp
  from Cons.IH [OF rest this] have g2: "sameGraph hp1 hp'" and e2: "onlyExposed r hp1 hp'"
    by simp_all
  from sameGraph_trans [OF g01 g2] onlyExposed_trans [OF g01 e01 e2] show ?case by simp
qed

lemma findExposed_onlyExposed:
  "findExposedModulesOfDependencies fuel r p hp = Some hp'
     \<Longrightarrow> sameGraph hp hp' \<and> onlyExposed r hp hp'"
proof (induction fuel arbitrary: p hp hp')
  case 0
  then show ?case by simp
next
  case (Suc fuel)
  let ?rec = "findExposedModulesOfDependencies fuel r"
  from Suc.prems obtain hp1 where
    first: "loadForDependencies ?rec p (map snd (dependencies (hp p))) hp = Some hp1"
    and second: "(if p = r then loadForDependencies ?rec p (map snd (testDependencies (hp1 p))) hp1
                  else Some hp1) = Some hp'"
    by (auto split: option.splits)
  have "set (map snd (dependencies (hp p))) \<subseteq> set (copiedFrom r hp p)"
    by (simp add: copiedFrom_def)
  from loadForDependencies_onlyExposed [of ?rec r, OF Suc.IH first this]
  have g1: "sameGraph hp hp1" and e1: "onlyExposed r hp hp1" by simp_all
  show ?case
  proof (cases "p = r")
    case True
    with second have s: "loadForDependencies ?rec p (map snd (testDependencies (hp1 p))) hp1 = Some hp'"
      by simp
    from True have "set (map snd (testDependencies (hp1 p))) \<subseteq> set (copiedFrom r hp1 p)"
      by (simp add: copiedFrom_def)
    from loadForDependencies_onlyExposed [of ?rec r, OF Suc.IH s this]
    have g2: "sameGraph hp1 hp'" and e2: "onlyExposed r hp1 hp'" by simp_all
    from sameGraph_trans [OF g1 g2] onlyExposed_trans [OF g1 e1 e2] show ?thesis by simp
  next
    case False
    with second g1 e1 show ?thesis by simp
  qed
qed

text \<open>
  C2. When exposure propagation returns, the table of every project holds no module
  name that it did not hold before other than names exposed by a dependency that the
  project copies from (its dependencies, and for the root its test dependencies); the
  dependency maps and the exposed modules are as before. And in each copy from a
  dependency to a project, an entry of the project's table is one that it had or one of
  the dependency's table whose module is in the dependency's exposed modules.
\<close>

theorem findExposedModules_only_exposed:
  assumes "findExposedModulesOfDependencies fuel rootProject proj hp = Some hp'"
  shows "(\<forall>q module. mapHas (moduleToUriMap (hp' q)) module \<longrightarrow>
            mapHas (moduleToUriMap (hp q)) module
            \<or> (\<exists>dep \<in> set (copiedFrom rootProject hp q). module \<in> set (exposedModules (hp dep))))
       \<and> (\<forall>q. dependencies (hp' q) = dependencies (hp q)
              \<and> testDependencies (hp' q) = testDependencies (hp q)
              \<and> exposedModules (hp' q) = exposedModules (hp q))
       \<and> (\<forall>p d h module u.
              (module, u) \<in> set (moduleToUriMap (copyExposedModules p d h p)) \<longrightarrow>
              (module, u) \<in> set (moduleToUriMap (h p))
              \<or> (module \<in> set (exposedModules (h d)) \<and> (module, u) \<in> set (moduleToUriMap (h d))))"
proof -
  from findExposed_onlyExposed [OF assms]
  have a: "\<forall>q module. mapHas (moduleToUriMap (hp' q)) module \<longrightarrow>
            mapHas (moduleToUriMap (hp q)) module
            \<or> (\<exists>dep \<in> set (copiedFrom rootProject hp q). module \<in> set (exposedModules (hp dep)))"
    and b: "\<forall>q. dependencies (hp' q) = dependencies (hp q)
              \<and> testDependencies (hp' q) = testDependencies (hp q)
              \<and> exposedModules (hp' q) = exposedModules (hp q)"
    by (simp_all add: onlyExposed_def sameGraph_def)
  have c: "(module, u) \<in> set (moduleToUriMap (copyExposedModules p d h p)) \<Longrightarrow>
              (module, u) \<in> set (moduleToUriMap (h p))
              \<or> (module \<in> set (exposedModules (h d)) \<and> (module, u) \<in> set (moduleToUriMap (h d)))"
    for p d h module u
    using copy_table_entries [of module u "set (exposedModules (h d))" "moduleToUriMap (h p)"
        "moduleToUriMap (h d)"]
    by (simp add: copyExposedModules_def)
  from a b c show ?thesis by blast
qed

lemma exampleHeap_propagated:
  "case findExposedModulesOfDependencies 3 4 4 exampleHeap of
     Some hp' \<Rightarrow> mapKeys (moduleToUriMap (hp' 4)) = [''Main'', ''Html'', ''Json.Decode'', ''Test'']
   | None \<Rightarrow> False"
  by code_simp

theorem findExposedModules_only_exposed_witness:
  "\<exists>hp'. findExposedModulesOfDependencies 3 4 4 exampleHeap = Some hp'
     \<and> mapHas (moduleToUriMap (hp' 4)) ''Html''
     \<and> \<not> mapHas (moduleToUriMap (hp' 4)) ''Html.Internal''
     \<and> \<not> mapHas (moduleToUriMap (hp' 4)) ''Basics''"
proof -
  from exampleHeap_propagated obtain hp' where
    r: "findExposedModulesOfDependencies 3 4 4 exampleHeap = Some hp'"
    and k: "mapKeys (moduleToUriMap (hp' 4)) = [''Main'', ''Html'', ''Json.Decode'', ''Test'']"
    by (auto split: option.splits)
  from k have html: "mapHas (moduleToUriMap (hp' 4)) ''Html''" by (simp add: mapHas_def)
  note t = findExposedModules_only_exposed [OF r, THEN conjunct1, rule_format, of 4]
  have own: "mapKeys (moduleToUriMap (exampleHeap 4)) = [''Main'']"
    by (simp add: exampleHeap_def mapKeys_def)
  have srcs: "copiedFrom 4 exampleHeap 4 = [1, 2, 3]"
    by (simp add: copiedFrom_def exampleHeap_def)
  have exposed: "exposedModules (exampleHeap 1) = [''Html'']"
    "exposedModules (exampleHeap 2) = [''Json.Decode'']"
    "exposedModules (exampleHeap 3) = [''Test'']"
    by (simp_all add: exampleHeap_def examplePackage_def)
  have internal: "\<not> mapHas (moduleToUriMap (hp' 4)) ''Html.Internal''"
    using t [of "''Html.Internal''"] own srcs exposed by (auto simp: mapHas_def)
  have basics: "\<not> mapHas (moduleToUriMap (hp' 4)) ''Basics''"
    using t [of "''Basics''"] own srcs exposed by (auto simp: mapHas_def)
  from r html internal basics show ?thesis by blast
qed

section \<open>Properties of the package loader\<close>


lemma loadPackage_hit:
  "mapGet V n = Some v \<Longrightarrow> mapGet (resolvedPackageCache st) (cacheKeyOf n v) = Some r
     \<Longrightarrow> loadPackage (Suc f) h V n st = Some (Inr r, st)"
  by simp

lemma loadPackage_unreadable:
  "mapGet V n = Some v \<Longrightarrow> mapGet (resolvedPackageCache st) (cacheKeyOf n v) = None
     \<Longrightarrow> (\<forall>j. readElmJson h (manifestPath h n v) \<noteq> Inr (PackageJson j))
     \<Longrightarrow> \<exists>e. loadPackage (Suc f) h V n st
            = Some (Inl e, st\<lparr>loaded := loaded st @ [cacheKeyOf n v]\<rparr>)"
  by (auto simp: manifestPath_def Let_def split: sum.splits elmJson.splits)

lemma loadPackage_miss:
  assumes "mapGet V n = Some v" and "mapGet (resolvedPackageCache st) (cacheKeyOf n v) = None"
      and "readElmJson h (manifestPath h n v) = Inr (PackageJson j)"
  shows "\<exists>pkg. loadPackage (Suc f) h V n st
           = (case loadDependencyMap (loadPackage f h V) (packageDependencies j)
                     (st\<lparr>loaded := loaded st @ [cacheKeyOf n v]\<rparr>) of
                None \<Rightarrow> None
              | Some (Inl e, st2) \<Rightarrow> Some (Inl e, st2)
              | Some (Inr deps, st2) \<Rightarrow>
                  Some (Inr (nextRef st2),
                        st2\<lparr>heap := (heap st2)(nextRef st2 := pkg deps),
                            nextRef := Suc (nextRef st2),
                            resolvedPackageCache :=
                              mapSet (cacheKeyOf n v) (nextRef st2) (resolvedPackageCache st2)\<rparr>))"
proof -
  let ?p = "packagesRoot h @ maintainerOf n @ ''/'' @ nameOf n @ ''/'' @ versionString v"
  let ?pkg = "\<lambda>deps. \<lparr>projectType = Package, uri = uriFile h ?p, dependencies = deps,
       testDependencies = [], sourceDirectories = [pathJoin h ?p ''src''],
       testDirectories = [pathJoin h ?p ''tests''], moduleToUriMap = [],
       maintainerAndPackageName = None,
       exposedModules = remdups (flatternExposedModules (exposedModulesJson j))\<rparr>"
  from assms have "loadPackage (Suc f) h V n st
           = (case loadDependencyMap (loadPackage f h V) (packageDependencies j)
                     (st\<lparr>loaded := loaded st @ [cacheKeyOf n v]\<rparr>) of
                None \<Rightarrow> None
              | Some (Inl e, st2) \<Rightarrow> Some (Inl e, st2)
              | Some (Inr deps, st2) \<Rightarrow>
                  Some (Inr (nextRef st2),
                        st2\<lparr>heap := (heap st2)(nextRef st2 := ?pkg deps),
                            nextRef := Suc (nextRef st2),
                            resolvedPackageCache :=
                              mapSet (cacheKeyOf n v) (nextRef st2) (resolvedPackageCache st2)\<rparr>))"
    by (simp add: manifestPath_def Let_def split: option.splits prod.splits sum.splits)
  then show ?thesis by (rule exI [of _ ?pkg])
qed












lemma leaves_subset:
  assumes "leaves V T st st' ok" and "S \<subseteq> T"
  shows "leaves V S st st' ok"
proof -
  from assms(1) obtain new where
    a: "\<forall>k r. mapGet (resolvedPackageCache st) k = Some r
            \<longrightarrow> mapGet (resolvedPackageCache st') k = Some r"
    and b: "\<forall>x \<in> T. uncachedName V (resolvedPackageCache st') x"
    and c: "loaded st' = loaded st @ new" "distinct new"
      "\<forall>k \<in> set new. \<not> mapHas (resolvedPackageCache st) k \<and> k \<notin> keyOfName V ` T"
      "ok \<longrightarrow> (\<forall>k. mapHas (resolvedPackageCache st') k
            \<longleftrightarrow> mapHas (resolvedPackageCache st) k \<or> k \<in> set new)"
    unfolding leaves_def by auto
  from b assms(2) have b': "\<forall>x \<in> S. uncachedName V (resolvedPackageCache st') x" by blast
  from c(3) assms(2)
  have c': "\<forall>k \<in> set new. \<not> mapHas (resolvedPackageCache st) k \<and> k \<notin> keyOfName V ` S"
    by blast
  from a b' c(1,2) c' c(4) show ?thesis unfolding leaves_def by blast
qed












text \<open>
  A load cycle comes to an end in a store without dependency cycles: with a rank that
  the manifests respect, \<open>loadPackage\<close> returns within a depth above the rank of the
  package, and \<open>loadRootProject\<close> within a depth above all ranks, provided the solver
  returns.
\<close>

lemma loadDependencyLoop_returns:
  assumes "\<forall>d \<in> set deps. \<forall>s. \<exists>res s'. lp d s = Some (res, s')"
  shows "\<exists>res st'. loadDependencyLoop lp deps acc st = Some (res, st')"
  using assms
proof (induction deps arbitrary: acc st)
  case Nil
  then show ?case by simp
next
  case (Cons dep deps)
  from Cons.prems obtain r1 st1 where c: "lp dep st = Some (r1, st1)" by fastforce
  show ?case
  proof (cases r1)
    case (Inl e)
    with c show ?thesis by simp
  next
    case (Inr p)
    from Cons.prems have "\<forall>d \<in> set deps. \<forall>s. \<exists>res s'. lp d s = Some (res, s')" by simp
    from Cons.IH [OF this, of "mapSet dep p acc" st1] Inr c show ?thesis by simp
  qed
qed

lemma loadPackage_returns:
  "ranked h rank \<Longrightarrow> rank n < fuel \<Longrightarrow> \<exists>res st'. loadPackage fuel h V n st = Some (res, st')"
proof (induction fuel arbitrary: n st)
  case 0
  then show ?case by simp
next
  case (Suc fuel)
  show ?case
  proof (cases "mapGet V n")
    case None
    then show ?thesis by simp
  next
    case (Some v)
    show ?thesis
    proof (cases "mapGet (resolvedPackageCache st) (cacheKeyOf n v)")
      case hit: (Some r)
      from loadPackage_hit [OF Some hit] show ?thesis by blast
    next
      case None
      show ?thesis
      proof (cases "\<exists>j. readElmJson h (manifestPath h n v) = Inr (PackageJson j)")
        case False
        with loadPackage_unreadable [OF Some None, of h fuel] show ?thesis by blast
      next
        case True
        then obtain j where j: "readElmJson h (manifestPath h n v) = Inr (PackageJson j)" by blast
        let ?st1 = "st\<lparr>loaded := loaded st @ [cacheKeyOf n v]\<rparr>"
        from Suc.prems j have "\<forall>d \<in> set (mapKeys (packageDependencies j)). rank d < fuel"
          unfolding ranked_def by fastforce
        with Suc.IH [OF Suc.prems(1)]
        have "\<forall>d \<in> set (mapKeys (packageDependencies j)). \<forall>s. \<exists>res s'.
                loadPackage fuel h V d s = Some (res, s')" by blast
        from loadDependencyLoop_returns [OF this, of "[]" ?st1] obtain r2 st2 where
          l: "loadDependencyMap (loadPackage fuel h V) (packageDependencies j) ?st1 = Some (r2, st2)"
          by (auto simp: loadDependencyMap_def)
        from loadPackage_miss [OF Some None j, of fuel] l show ?thesis
          by (cases r2) auto
      qed
    qed
  qed
qed

lemma loadDependencyMap_returns:
  assumes "ranked h rank" "\<forall>n. rank n < fuel"
  shows "\<exists>res st'. loadDependencyMap (loadPackage fuel h V) deps st = Some (res, st')"
proof -
  from assms have "\<forall>d \<in> set (mapKeys deps). \<forall>s. \<exists>res s'. loadPackage fuel h V d s = Some (res, s')"
    using loadPackage_returns by blast
  from loadDependencyLoop_returns [OF this] show ?thesis by (simp add: loadDependencyMap_def)
qed

lemma loadRootProject_returns:
  assumes r: "ranked h rank" and b: "\<forall>n. rank n < fuel" and s: "\<forall>deps. solve deps \<noteq> None"
  shows "\<exists>res st'. loadRootProject fuel h solve elmJsonPath st = Some (res, st')"
proof -
  have two: "\<exists>res st'.
      (case loadDependencyMap (loadPackage fuel h V) d st of
         None \<Rightarrow> None
       | Some (Inl e, st1) \<Rightarrow> Some (Inl e, st1)
       | Some (Inr deps, st1) \<Rightarrow>
           (case loadDependencyMap (loadPackage fuel h V) t st1 of
              None \<Rightarrow> None
            | Some (Inl e, st2) \<Rightarrow> Some (Inl e, st2)
            | Some (Inr testDeps, st2) \<Rightarrow> Some (f deps testDeps st2)))
      = Some (res, st')" for V d t f
  proof -
    from loadDependencyMap_returns [OF r b] obtain r1 st1 where
      l1: "loadDependencyMap (loadPackage fuel h V) d st = Some (r1, st1)" by blast
    show ?thesis
    proof (cases r1)
      case (Inl e)
      with l1 show ?thesis by simp
    next
      case (Inr m1)
      from loadDependencyMap_returns [OF r b] obtain r2 st2 where
        l2: "loadDependencyMap (loadPackage fuel h V) t st1 = Some (r2, st2)" by blast
      with l1 Inr show ?thesis by (cases r2; cases "f m1 (projr r2) st2") auto
    qed
  qed
  show ?thesis
  proof (cases "readElmJson h elmJsonPath")
    case (Inl e)
    then show ?thesis by (simp add: loadRootProject_def)
  next
    case (Inr manifest)
    show ?thesis
    proof (cases manifest)
      case (ApplicationJson a)
      with Inr two show ?thesis
        by (simp add: loadRootProject_def Let_def
            cong: option.case_cong sum.case_cong prod.case_cong)
    next
      case (PackageJson j)
      show ?thesis
      proof (cases "rootConstraints h j")
        case (Inl e)
        with Inr PackageJson show ?thesis by (simp add: loadRootProject_def Let_def)
      next
        case deps: (Inr deps)
        from s have "solve deps \<noteq> None" by blast
        then obtain outcome where o: "solve deps = Some outcome" by (cases "solve deps") auto
        show ?thesis
        proof (cases outcome)
          case (Inl e)
          with Inr PackageJson deps o show ?thesis by (simp add: loadRootProject_def Let_def)
        next
          case sol: (Inr solution)
          show ?thesis
          proof (cases solution)
            case None
            with Inr PackageJson deps o sol show ?thesis by (simp add: loadRootProject_def Let_def)
          next
            case (Some V)
            with Inr PackageJson deps o sol two show ?thesis
              by (simp add: loadRootProject_def Let_def
                  cong: option.case_cong sum.case_cong prod.case_cong)
          qed
        qed
      qed
    qed
  qed
qed






section \<open>Propagation returns on the graphs the loader builds\<close>

lemma bottomUp_sameGraph: "sameGraph hp hp' \<Longrightarrow> bottomUp hp \<Longrightarrow> bottomUp hp'"
  by (simp add: sameGraph_def bottomUp_def)

lemma loadForDependencies_returns:
  assumes "\<forall>d \<in> set deps. \<forall>hp. bottomUp hp
             \<longrightarrow> (\<exists>hp'. recurse d hp = Some hp' \<and> sameGraph hp hp')"
      and "bottomUp hp"
  shows "\<exists>hp'. loadForDependencies recurse proj deps hp = Some hp' \<and> sameGraph hp hp'"
  using assms
proof (induction deps arbitrary: hp)
  case Nil
  then show ?case by (simp add: sameGraph_refl)
next
  case (Cons dep deps)
  let ?hp0 = "copyExposedModules proj dep hp"
  have g0: "sameGraph hp ?hp0" by (rule copyExposedModules_sameGraph)
  from g0 Cons.prems(2) have b0: "bottomUp ?hp0" by (rule bottomUp_sameGraph)
  with Cons.prems(1) obtain hp1 where r: "recurse dep ?hp0 = Some hp1" and g1: "sameGraph ?hp0 hp1"
    by auto
  from g1 b0 have b1: "bottomUp hp1" by (rule bottomUp_sameGraph)
  from Cons.prems(1) have "\<forall>d \<in> set deps. \<forall>hp. bottomUp hp
             \<longrightarrow> (\<exists>hp'. recurse d hp = Some hp' \<and> sameGraph hp hp')" by simp
  from Cons.IH [OF this b1] obtain hp' where
    l: "loadForDependencies recurse proj deps hp1 = Some hp'" and g2: "sameGraph hp1 hp'" by blast
  from g0 g1 g2 have "sameGraph hp hp'" by (blast intro: sameGraph_trans)
  with r l show ?case by simp
qed

lemma findExposed_returns:
  "proj < fuel \<Longrightarrow> bottomUp hp
     \<Longrightarrow> \<exists>hp'. findExposedModulesOfDependencies fuel rootProject proj hp = Some hp'
            \<and> sameGraph hp hp'"
proof (induction fuel arbitrary: proj hp)
  case 0
  then show ?case by simp
next
  case (Suc fuel)
  let ?rec = "findExposedModulesOfDependencies fuel rootProject"
  have sub: "\<forall>d \<in> set ds. \<forall>hp. bottomUp hp \<longrightarrow> (\<exists>hp'. ?rec d hp = Some hp' \<and> sameGraph hp hp')"
    if "\<forall>d \<in> set ds. d < proj" for ds
    using that Suc.prems(1) Suc.IH by (metis less_Suc_eq_le less_le_trans)
  from Suc.prems(2) have d1: "\<forall>d \<in> set (map snd (dependencies (hp proj))). d < proj"
    by (simp add: bottomUp_def)
  from loadForDependencies_returns [OF sub [OF d1] Suc.prems(2)] obtain hp1 where
    l1: "loadForDependencies ?rec proj (map snd (dependencies (hp proj))) hp = Some hp1"
    and g1: "sameGraph hp hp1" by blast
  from g1 Suc.prems(2) have b1: "bottomUp hp1" by (rule bottomUp_sameGraph)
  then have d2: "\<forall>d \<in> set (map snd (testDependencies (hp1 proj))). d < proj"
    by (simp add: bottomUp_def)
  from loadForDependencies_returns [OF sub [OF d2] b1] obtain hp2 where
    l2: "loadForDependencies ?rec proj (map snd (testDependencies (hp1 proj))) hp1 = Some hp2"
    and g2: "sameGraph hp1 hp2" by blast
  from g1 g2 have "sameGraph hp hp2" by (rule sameGraph_trans)
  with l1 l2 g1 show ?case by (cases "proj = rootProject") simp_all
qed

lemma below_mapSet: "below m n \<Longrightarrow> r < n \<Longrightarrow> below (mapSet k r m) n"
  using set_mapSet [of _ k r m] by (fastforce simp: below_def)

lemma below_mono: "below m n \<Longrightarrow> n \<le> n' \<Longrightarrow> below m n'"
  by (fastforce simp: below_def)

lemma built_allocate:
  assumes "built st" "below deps (nextRef st)" "below tests (nextRef st)"
      and "dependencies proj = deps" "testDependencies proj = tests"
  shows "bottomUp ((heap st)(nextRef st := proj))"
  using assms by (auto simp: built_def bottomUp_def below_def)

lemma loadDependencyLoop_built:
  assumes lp: "\<forall>x \<in> set deps. keepsBuilt (lp x)"
      and "built st" "below acc (nextRef st)"
      and "loadDependencyLoop lp deps acc st = Some (res, st')"
  shows "built st' \<and> nextRef st \<le> nextRef st' \<and> (\<forall>m. res = Inr m \<longrightarrow> below m (nextRef st'))"
  using assms
proof (induction deps arbitrary: acc st)
  case Nil
  then show ?case by auto
next
  case (Cons dep deps)
  from Cons.prems(4) obtain r1 st1 where c: "lp dep st = Some (r1, st1)"
    by (cases "lp dep st") auto
  from Cons.prems(1) have "keepsBuilt (lp dep)" by simp
  with Cons.prems(2) c have b1: "built st1" and n1: "nextRef st \<le> nextRef st1"
    and r1: "\<forall>r. r1 = Inr r \<longrightarrow> r < nextRef st1" unfolding keepsBuilt_def by blast+
  show ?case
  proof (cases r1)
    case (Inl e)
    with Cons.prems(4) c have "res = Inl e" "st' = st1" by simp_all
    with b1 n1 show ?thesis by simp
  next
    case (Inr p)
    with Cons.prems(4) c have l: "loadDependencyLoop lp deps (mapSet dep p acc) st1 = Some (res, st')"
      by simp
    from Inr r1 have "p < nextRef st1" by simp
    with below_mono [OF Cons.prems(3) n1] have a1: "below (mapSet dep p acc) (nextRef st1)"
      by (rule below_mapSet)
    from Cons.prems(1) have "\<forall>x \<in> set deps. keepsBuilt (lp x)" by simp
    from Cons.IH [OF this b1 a1 l] n1 show ?thesis by auto
  qed
qed

lemma loadPackage_miss_project:
  assumes "mapGet V n = Some v" and "mapGet (resolvedPackageCache st) (cacheKeyOf n v) = None"
      and "readElmJson h (manifestPath h n v) = Inr (PackageJson j)"
  shows "\<exists>pkg. (\<forall>deps. dependencies (pkg deps) = deps \<and> testDependencies (pkg deps) = [])
           \<and> loadPackage (Suc f) h V n st
           = (case loadDependencyMap (loadPackage f h V) (packageDependencies j)
                     (st\<lparr>loaded := loaded st @ [cacheKeyOf n v]\<rparr>) of
                None \<Rightarrow> None
              | Some (Inl e, st2) \<Rightarrow> Some (Inl e, st2)
              | Some (Inr deps, st2) \<Rightarrow>
                  Some (Inr (nextRef st2),
                        st2\<lparr>heap := (heap st2)(nextRef st2 := pkg deps),
                            nextRef := Suc (nextRef st2),
                            resolvedPackageCache :=
                              mapSet (cacheKeyOf n v) (nextRef st2) (resolvedPackageCache st2)\<rparr>))"
proof -
  let ?p = "packagesRoot h @ maintainerOf n @ ''/'' @ nameOf n @ ''/'' @ versionString v"
  let ?pkg = "\<lambda>deps. \<lparr>projectType = Package, uri = uriFile h ?p, dependencies = deps,
       testDependencies = [], sourceDirectories = [pathJoin h ?p ''src''],
       testDirectories = [pathJoin h ?p ''tests''], moduleToUriMap = [],
       maintainerAndPackageName = None,
       exposedModules = remdups (flatternExposedModules (exposedModulesJson j))\<rparr>"
  from assms have "loadPackage (Suc f) h V n st
           = (case loadDependencyMap (loadPackage f h V) (packageDependencies j)
                     (st\<lparr>loaded := loaded st @ [cacheKeyOf n v]\<rparr>) of
                None \<Rightarrow> None
              | Some (Inl e, st2) \<Rightarrow> Some (Inl e, st2)
              | Some (Inr deps, st2) \<Rightarrow>
                  Some (Inr (nextRef st2),
                        st2\<lparr>heap := (heap st2)(nextRef st2 := ?pkg deps),
                            nextRef := Suc (nextRef st2),
                            resolvedPackageCache :=
                              mapSet (cacheKeyOf n v) (nextRef st2) (resolvedPackageCache st2)\<rparr>))"
    by (simp add: manifestPath_def Let_def split: option.splits prod.splits sum.splits)
  then show ?thesis by (intro exI [of _ ?pkg]) simp
qed

lemma loadPackage_built_step:
  "built st \<Longrightarrow> loadPackage fuel h V n st = Some (res, st')
     \<Longrightarrow> built st' \<and> nextRef st \<le> nextRef st' \<and> (\<forall>r. res = Inr r \<longrightarrow> r < nextRef st')"
proof (induction fuel arbitrary: n st res st')
  case 0
  then show ?case by simp
next
  case (Suc fuel)
  show ?case
  proof (cases "mapGet V n")
    case None
    with Suc.prems show ?thesis by auto
  next
    case (Some v)
    show ?thesis
    proof (cases "mapGet (resolvedPackageCache st) (cacheKeyOf n v)")
      case hit: (Some r)
      from loadPackage_hit [OF Some hit, of fuel h] Suc.prems(2) have "res = Inr r" "st' = st"
        by simp_all
      with Suc.prems(1) hit show ?thesis by (auto simp: built_def)
    next
      case None
      let ?st1 = "st\<lparr>loaded := loaded st @ [cacheKeyOf n v]\<rparr>"
      have b1: "built ?st1" using Suc.prems(1) by (simp add: built_def)
      show ?thesis
      proof (cases "\<exists>j. readElmJson h (manifestPath h n v) = Inr (PackageJson j)")
        case False
        with loadPackage_unreadable [OF Some None, of h fuel] Suc.prems(2) obtain e where
          "res = Inl e" "st' = ?st1" by auto
        with b1 show ?thesis by simp
      next
        case True
        then obtain j where j: "readElmJson h (manifestPath h n v) = Inr (PackageJson j)" by blast
        from loadPackage_miss_project [OF Some None j, of fuel] obtain pkg where
          pkg: "\<forall>deps. dependencies (pkg deps) = deps \<and> testDependencies (pkg deps) = []" and
          eq: "loadPackage (Suc fuel) h V n st
           = (case loadDependencyMap (loadPackage fuel h V) (packageDependencies j) ?st1 of
                None \<Rightarrow> None
              | Some (Inl e, st2) \<Rightarrow> Some (Inl e, st2)
              | Some (Inr deps, st2) \<Rightarrow>
                  Some (Inr (nextRef st2),
                        st2\<lparr>heap := (heap st2)(nextRef st2 := pkg deps),
                            nextRef := Suc (nextRef st2),
                            resolvedPackageCache :=
                              mapSet (cacheKeyOf n v) (nextRef st2) (resolvedPackageCache st2)\<rparr>))"
          by blast
        from Suc.prems(2) eq obtain r2 st2 where
          l: "loadDependencyMap (loadPackage fuel h V) (packageDependencies j) ?st1 = Some (r2, st2)"
          by (cases "loadDependencyMap (loadPackage fuel h V) (packageDependencies j) ?st1") auto
        have e: "below [] (nextRef ?st1)" by (simp add: below_def)
        from Suc.IH have "\<forall>x \<in> set (mapKeys (packageDependencies j)).
                 keepsBuilt (loadPackage fuel h V x)"
          unfolding keepsBuilt_def by blast
        from loadDependencyLoop_built [OF this b1 e] l
        have b2: "built st2" and n2: "nextRef st \<le> nextRef st2"
          and m2: "\<forall>m. r2 = Inr m \<longrightarrow> below m (nextRef st2)"
          by (auto simp: loadDependencyMap_def)
        show ?thesis
        proof (cases r2)
          case (Inl e)
          with Suc.prems(2) eq l have "res = Inl e" "st' = st2" by simp_all
          with b2 n2 show ?thesis by simp
        next
          case (Inr deps)
          let ?ref = "nextRef st2"
          from Inr Suc.prems(2) eq l have res: "res = Inr ?ref"
            and st': "st' = st2\<lparr>heap := (heap st2)(?ref := pkg deps), nextRef := Suc ?ref,
                            resolvedPackageCache :=
                              mapSet (cacheKeyOf n v) ?ref (resolvedPackageCache st2)\<rparr>"
            by simp_all
          from m2 Inr have d: "below deps ?ref" by simp
          have t: "below [] ?ref" by (simp add: below_def)
          from pkg have p: "dependencies (pkg deps) = deps" "testDependencies (pkg deps) = []"
            by simp_all
          from built_allocate [OF b2 d t p] have h': "bottomUp (heap st')" by (simp add: st')
          from b2 have "\<forall>k r. mapGet (resolvedPackageCache st') k = Some r \<longrightarrow> r < nextRef st'"
            by (auto simp: st' built_def mapGet_mapSet less_Suc_eq)
          with h' have "built st'" by (simp add: built_def)
          with res n2 show ?thesis by (simp add: st')
        qed
      qed
    qed
  qed
qed

lemma loadPackage_built: "keepsBuilt (loadPackage fuel h V n)"
  unfolding keepsBuilt_def using loadPackage_built_step by blast

lemma loadDependencyMap_built:
  assumes "built st" "loadDependencyMap (loadPackage fuel h V) deps st = Some (Inr m, st')"
  shows "built st' \<and> nextRef st \<le> nextRef st' \<and> below m (nextRef st')"
proof -
  have e: "below [] (nextRef st)" by (simp add: below_def)
  have "\<forall>x \<in> set (mapKeys deps). keepsBuilt (loadPackage fuel h V x)"
    by (simp add: loadPackage_built)
  from loadDependencyLoop_built [OF this assms(1) e] assms(2) show ?thesis
    by (simp add: loadDependencyMap_def)
qed

lemma loadRootProject_root:
  assumes run: "loadRootProject fuel h solve elmJsonPath st = Some (Inr root, st')"
  shows "\<exists>V deps1 deps2 m1 st1 m2 st2 proj.
           loadDependencyMap (loadPackage fuel h V) deps1 st = Some (Inr m1, st1)
           \<and> loadDependencyMap (loadPackage fuel h V) deps2 st1 = Some (Inr m2, st2)
           \<and> dependencies proj = m1 \<and> testDependencies proj = m2
           \<and> root = nextRef st2
           \<and> st' = st2\<lparr>heap := (heap st2)(nextRef st2 := proj), nextRef := Suc (nextRef st2)\<rparr>"
proof -
  have two: ?thesis
    if run2: "(case loadDependencyMap (loadPackage fuel h V) d st of
                 None \<Rightarrow> None
               | Some (Inl e, st1) \<Rightarrow> Some (Inl e, st1)
               | Some (Inr deps, st1) \<Rightarrow>
                   (case loadDependencyMap (loadPackage fuel h V) t st1 of
                      None \<Rightarrow> None
                    | Some (Inl e, st2) \<Rightarrow> Some (Inl e, st2)
                    | Some (Inr testDeps, st2) \<Rightarrow>
                        Some (Inr (nextRef st2),
                              st2\<lparr>heap := (heap st2)(nextRef st2 := proj deps testDeps),
                                  nextRef := Suc (nextRef st2)\<rparr>)))
              = Some (Inr root, st')"
      and proj: "\<forall>deps testDeps. dependencies (proj deps testDeps) = deps
                   \<and> testDependencies (proj deps testDeps) = testDeps"
    for V d t proj
  proof -
    from run2 obtain r1 st1 where
      l1: "loadDependencyMap (loadPackage fuel h V) d st = Some (r1, st1)"
      by (cases "loadDependencyMap (loadPackage fuel h V) d st") auto
    with run2 obtain m1 where r1: "r1 = Inr m1" by (cases r1) auto
    from run2 l1 r1 obtain r2 st2 where
      l2: "loadDependencyMap (loadPackage fuel h V) t st1 = Some (r2, st2)"
      by (cases "loadDependencyMap (loadPackage fuel h V) t st1") auto
    with run2 l1 r1 obtain m2 where r2: "r2 = Inr m2" by (cases r2) auto
    from run2 l1 r1 l2 r2 have "root = nextRef st2"
      "st' = st2\<lparr>heap := (heap st2)(nextRef st2 := proj m1 m2), nextRef := Suc (nextRef st2)\<rparr>"
      by auto
    with l1 r1 l2 r2 proj show ?thesis by blast
  qed
  show ?thesis
  proof (cases "readElmJson h elmJsonPath")
    case (Inl e)
    with run show ?thesis by (simp add: loadRootProject_def)
  next
    case (Inr manifest)
    show ?thesis
    proof (cases manifest)
      case (ApplicationJson a)
      let ?d = "objectAssign (dependenciesDirect a)
                  [dependenciesIndirect a, testDependenciesDirect a, testDependenciesIndirect a]"
      let ?proj = "\<lambda>deps testDeps.
                     \<lparr>projectType = Application, uri = rootUri h, dependencies = deps,
                      testDependencies = testDeps,
                      sourceDirectories =
                        map (pathResolve h (rootFsPath h)) (sourceDirectoriesJson a),
                      testDirectories = [pathJoin h (rootFsPath h) ''tests''],
                      moduleToUriMap = [], maintainerAndPackageName = None,
                      exposedModules = []\<rparr>"
      from run Inr ApplicationJson show ?thesis
        by (intro two [where V = "newMap (map (\<lambda>(dep, v). (dep, parseVersion h v)) ?d)"
              and d = ?d and t = "testDependenciesDirect a" and proj = ?proj])
           (simp_all add: loadRootProject_def Let_def
              cong: option.case_cong sum.case_cong prod.case_cong)
    next
      case (PackageJson j)
      let ?d = "objectAssign (packageDependencies j) [packageTestDependencies j]"
      let ?proj = "\<lambda>deps testDeps.
                     \<lparr>projectType = Package, uri = rootUri h, dependencies = deps,
                      testDependencies = testDeps,
                      sourceDirectories = [pathJoin h (rootFsPath h) ''src''],
                      testDirectories = [pathJoin h (rootFsPath h) ''tests''],
                      moduleToUriMap = [], maintainerAndPackageName = None,
                      exposedModules =
                        remdups (flatternExposedModules (exposedModulesJson j))\<rparr>"
      from run Inr PackageJson obtain deps where c: "rootConstraints h j = Inr deps"
        by (cases "rootConstraints h j") (auto simp: loadRootProject_def Let_def)
      with run Inr PackageJson obtain V where s: "solve deps = Some (Inr (Some V))"
        by (auto simp: loadRootProject_def Let_def split: option.splits sum.splits)
      from run Inr PackageJson c s show ?thesis
        by (intro two [where V = V and d = ?d and t = "packageTestDependencies j"
              and proj = ?proj])
           (simp_all add: loadRootProject_def Let_def
              cong: option.case_cong sum.case_cong prod.case_cong)
    qed
  qed
qed

lemma loadRootProject_built:
  assumes "built st" and run: "loadRootProject fuel h solve elmJsonPath st = Some (Inr root, st')"
  shows "bottomUp (heap st') \<and> root < nextRef st'"
proof -
  from loadRootProject_root [OF run] obtain V deps1 deps2 m1 st1 m2 st2 proj where
    l1: "loadDependencyMap (loadPackage fuel h V) deps1 st = Some (Inr m1, st1)"
    and l2: "loadDependencyMap (loadPackage fuel h V) deps2 st1 = Some (Inr m2, st2)"
    and p: "dependencies proj = m1" "testDependencies proj = m2"
    and root: "root = nextRef st2"
    and st': "st' = st2\<lparr>heap := (heap st2)(nextRef st2 := proj), nextRef := Suc (nextRef st2)\<rparr>"
    by blast
  from loadDependencyMap_built [OF assms(1) l1] have b1: "built st1" and m1: "below m1 (nextRef st1)"
    by simp_all
  from loadDependencyMap_built [OF b1 l2] have b2: "built st2" and n: "nextRef st1 \<le> nextRef st2"
    and m2: "below m2 (nextRef st2)" by simp_all
  from built_allocate [OF b2 below_mono [OF m1 n] m2 p] root show ?thesis by (simp add: st')
qed

text \<open>
  Propagation returns after every load cycle that returned the root project, whatever
  local discovery has written into the tables in between: a loader that starts with no
  project builds a heap on which every dependency lies below its dependent.
\<close>

lemma built_newLoader: "built newLoader"
  by (simp add: built_def bottomUp_def newLoader_def mapGet_def)

lemma findExposedModules_returns:
  assumes "built st"
      and "loadRootProject fuel h solve elmJsonPath st = Some (Inr root, st')"
      and "sameGraph (heap st') hp"
  shows "\<exists>hp'. findExposedModulesOfDependencies (Suc root) root root hp = Some hp'"
proof -
  from loadRootProject_built [OF assms(1,2)] have "bottomUp (heap st')" by simp
  with assms(3) have "bottomUp hp" by (rule bottomUp_sameGraph)
  from findExposed_returns [OF _ this, of root "Suc root" root] show ?thesis by auto
qed

end
